theory Spec2Isabelle
  imports Main "HOL-Library.AList"
begin

section \<open>Strings\<close>

text \<open>
  JavaScript strings are modelled as \<open>string\<close>, the list of the bytes of their UTF-8
  encoding, so a character beyond ASCII is several elements. A template literal
  \<open>${i}\<close> of an array index prints the index in decimal.
\<close>

definition digit_char :: "nat \<Rightarrow> char" where
  "digit_char d = ''0123456789'' ! d"

fun string_of_nat :: "nat \<Rightarrow> string" where
  "string_of_nat n =
     (if n < 10 then [digit_char n]
      else string_of_nat (n div 10) @ [digit_char (n mod 10)])"

declare string_of_nat.simps [simp del]

text \<open>\<open>s.split(c)\<close> for a one-character separator: \<open>"".split("-")\<close> is \<open>[""]\<close>.\<close>

fun split :: "char \<Rightarrow> string \<Rightarrow> string list" where
  "split c [] = [[]]"
| "split c (x # xs) =
     (if x = c then [] # split c xs
      else (x # hd (split c xs)) # tl (split c xs))"

text \<open>\<open>parts.join(c)\<close>.\<close>

fun join :: "char \<Rightarrow> string list \<Rightarrow> string" where
  "join c [] = []"
| "join c [p] = p"
| "join c (p # q # ps) = p @ c # join c (q # ps)"

text \<open>\<open>s.startsWith(p)\<close>.\<close>

definition startsWith :: "string \<Rightarrow> string \<Rightarrow> bool" where
  "startsWith s p = (take (length p) s = p)"

text \<open>
  The characters that \<open>\s\<close> matches and \<open>trim()\<close> removes, in UTF-8: U+0009 to
  U+000D, U+0020, U+00A0, U+1680, U+2000 to U+200A, U+2028, U+2029, U+202F, U+205F,
  U+3000 and U+FEFF.
\<close>

definition whiteSpace :: "string list" where
  "whiteSpace =
     [[CHR 0x09], [CHR 0x0A], [CHR 0x0B], [CHR 0x0C], [CHR 0x0D], [CHR 0x20],
      [CHR 0xC2, CHR 0xA0], [CHR 0xE1, CHR 0x9A, CHR 0x80],
      [CHR 0xE2, CHR 0x80, CHR 0x80], [CHR 0xE2, CHR 0x80, CHR 0x81],
      [CHR 0xE2, CHR 0x80, CHR 0x82], [CHR 0xE2, CHR 0x80, CHR 0x83],
      [CHR 0xE2, CHR 0x80, CHR 0x84], [CHR 0xE2, CHR 0x80, CHR 0x85],
      [CHR 0xE2, CHR 0x80, CHR 0x86], [CHR 0xE2, CHR 0x80, CHR 0x87],
      [CHR 0xE2, CHR 0x80, CHR 0x88], [CHR 0xE2, CHR 0x80, CHR 0x89],
      [CHR 0xE2, CHR 0x80, CHR 0x8A], [CHR 0xE2, CHR 0x80, CHR 0xA8],
      [CHR 0xE2, CHR 0x80, CHR 0xA9], [CHR 0xE2, CHR 0x80, CHR 0xAF],
      [CHR 0xE2, CHR 0x81, CHR 0x9F], [CHR 0xE3, CHR 0x80, CHR 0x80],
      [CHR 0xEF, CHR 0xBB, CHR 0xBF]]"

text \<open>
  The length of the character among \<open>ws\<close> that the string starts with, and 0 when it
  starts with none of them.
\<close>

definition spaceAtStart :: "string list \<Rightarrow> string \<Rightarrow> nat" where
  "spaceAtStart ws s =
     (case find (\<lambda>w. startsWith s w) ws of None \<Rightarrow> 0 | Some w \<Rightarrow> length w)"

lemma spaceAtStart_le: "spaceAtStart ws s \<le> length s"
proof (cases "find (\<lambda>w. startsWith s w) ws")
  case None
  then show ?thesis by (simp add: spaceAtStart_def)
next
  case (Some w)
  then have "startsWith s w" by (auto simp: find_Some_iff)
  then have "length (take (length w) s) = length w"
    by (simp add: startsWith_def)
  with Some show ?thesis by (simp add: spaceAtStart_def)
qed

function dropSpaces :: "string list \<Rightarrow> string \<Rightarrow> string" where
  "dropSpaces ws s =
     (if spaceAtStart ws s = 0 then s else dropSpaces ws (drop (spaceAtStart ws s) s))"
  by pat_completeness auto
termination
proof (relation "measure (\<lambda>(ws, s). length s)")
  show "wf (measure (\<lambda>(ws, s). length s))" by simp
next
  fix ws :: "string list" and s :: string
  assume "spaceAtStart ws s \<noteq> 0"
  with spaceAtStart_le[of ws s] have "0 < length s" "0 < spaceAtStart ws s" by linarith+
  then show "((ws, drop (spaceAtStart ws s) s), (ws, s)) \<in> measure (\<lambda>(ws, s). length s)"
    by simp
qed

declare dropSpaces.simps [simp del]

text \<open>\<open>s.trim()\<close>: the white space at the start goes, then the white space at the end.\<close>

definition trim :: "string \<Rightarrow> string" where
  "trim s = rev (dropSpaces (map rev whiteSpace) (rev (dropSpaces whiteSpace s)))"

definition isDigit :: "char \<Rightarrow> bool" where
  "isDigit c = (c \<in> set ''0123456789'')"

text \<open>
  \<open>s.replace(/\s\(Version \d+\)$/, '')\<close>. The pattern is anchored at the end of the
  string, so it is read from the end: a closing parenthesis, a non-empty run of digits
  (which is the whole run, since the text before it ends in a space), the text
  \<open>(Version \<close> and one white-space character. When the string does not end so, it is
  returned as it is.
\<close>

definition stripVersion :: "string \<Rightarrow> string" where
  "stripVersion s =
     (case rev s of
        [] \<Rightarrow> s
      | c # r \<Rightarrow>
          if c \<noteq> CHR '')'' then s
          else
            let ds = takeWhile isDigit r; r1 = dropWhile isDigit r in
            if ds = [] then s
            else if take 9 r1 \<noteq> rev ''(Version '' then s
            else
              let r2 = drop 9 r1; n = spaceAtStart (map rev whiteSpace) r2 in
              if n = 0 then s else rev (drop n r2))"

section \<open>Data model\<close>

text \<open>The raw generation result (\<open>KeywordMap\<close>); \<open>lsi\<close> may be missing (\<open>l2.lsi || []\<close>).\<close>

record Level2Node =
  raw2_keyword :: string
  raw2_type :: string
  raw2_lsi :: "string list option"

record Level1Node =
  raw1_keyword :: string
  raw1_type :: string
  raw1_pageType :: string
  raw1_children :: "Level2Node list"

record KeywordMap =
  coreUserIntent :: string
  keywordHierarchy :: "Level1Node list"

text \<open>
  The renderable tree. \<open>isNew\<close> is an optional field: \<open>None\<close> is an object without
  it. The saved hierarchy is made of the same objects (\<open>{...l2, lsi: savedLsi}\<close>), so it
  has the same types.
\<close>

record RenderLsiNode =
  lsi_id :: string
  lsi_text :: string
  isNew :: "bool option"

record RenderLevel2Node =
  l2_id :: string
  l2_keyword :: string
  l2_type :: string
  lsi :: "RenderLsiNode list"

record RenderLevel1Node =
  l1_id :: string
  l1_keyword :: string
  l1_type :: string
  pageType :: string
  children :: "RenderLevel2Node list"

text \<open>
  \<open>SelectedKeywords\<close> is a \<open>Record<string, boolean>\<close>: an association list in
  insertion order, whose keys are unique in a JavaScript object. \<open>AList.update\<close> writes
  a key in place or appends it, as an assignment to an object's property does.
\<close>

type_synonym SelectedKeywords = "(string \<times> bool) list"

type_synonym Translations = "(string \<times> string) list"

record KeywordSubProject =
  sp_id :: string
  sp_name :: string
  sp_parentProjectId :: string
  savedAt :: string
  modelUsed :: string
  sp_keywords :: "RenderLevel1Node list"
  sp_translations :: Translations

section \<open>Tree builder\<close>

text \<open>The three identifier templates of \<open>transformToRenderableMap\<close>.\<close>

definition l1id :: "nat \<Rightarrow> string" where
  "l1id i = ''l1-'' @ string_of_nat i"

definition l2id :: "nat \<Rightarrow> nat \<Rightarrow> string" where
  "l2id i j = ''l1-'' @ string_of_nat i @ ''-l2-'' @ string_of_nat j"

definition lsiid :: "nat \<Rightarrow> nat \<Rightarrow> nat \<Rightarrow> string" where
  "lsiid i j k =
     ''l1-'' @ string_of_nat i @ ''-l2-'' @ string_of_nat j @ ''-lsi-'' @ string_of_nat k"

definition transformToRenderableMap :: "KeywordMap \<Rightarrow> RenderLevel1Node list" where
  "transformToRenderableMap m =
     map (\<lambda>(i, l1).
        \<lparr>l1_id = l1id i,
         l1_keyword = raw1_keyword l1,
         l1_type = raw1_type l1,
         pageType = raw1_pageType l1,
         children =
           map (\<lambda>(j, l2).
              \<lparr>l2_id = l2id i j,
               l2_keyword = raw2_keyword l2,
               l2_type = raw2_type l2,
               lsi =
                 map (\<lambda>(k, lsiText). \<lparr>lsi_id = lsiid i j k, lsi_text = lsiText, isNew = None\<rparr>)
                   (enumerate 0 (case raw2_lsi l2 of None \<Rightarrow> [] | Some ts \<Rightarrow> ts))\<rparr>)
             (enumerate 0 (raw1_children l1))\<rparr>)
       (enumerate 0 (keywordHierarchy m))"

text \<open>
  A tree whose identifiers are the ones the builder assigns: position within the parent,
  appended to the parent's identifier.
\<close>

fun wf_lsi :: "string \<Rightarrow> nat \<Rightarrow> RenderLsiNode list \<Rightarrow> bool" where
  "wf_lsi p k [] = True"
| "wf_lsi p k (x # xs) =
     (lsi_id x = p @ ''-lsi-'' @ string_of_nat k \<and> wf_lsi p (Suc k) xs)"

fun wf_l2 :: "string \<Rightarrow> nat \<Rightarrow> RenderLevel2Node list \<Rightarrow> bool" where
  "wf_l2 p j [] = True"
| "wf_l2 p j (x # xs) =
     (l2_id x = p @ ''-l2-'' @ string_of_nat j \<and> wf_lsi (l2_id x) 0 (lsi x)
      \<and> wf_l2 p (Suc j) xs)"

fun wf_l1 :: "nat \<Rightarrow> RenderLevel1Node list \<Rightarrow> bool" where
  "wf_l1 i [] = True"
| "wf_l1 i (x # xs) =
     (l1_id x = ''l1-'' @ string_of_nat i \<and> wf_l2 (l1_id x) 0 (children x)
      \<and> wf_l1 (Suc i) xs)"

definition wf_tree :: "RenderLevel1Node list \<Rightarrow> bool" where
  "wf_tree t = wf_l1 0 t"

section \<open>Selection\<close>

datatype node = L1 RenderLevel1Node | L2 RenderLevel2Node | Lsi RenderLsiNode

fun node_id :: "node \<Rightarrow> string" where
  "node_id (L1 n) = l1_id n"
| "node_id (L2 n) = l2_id n"
| "node_id (Lsi n) = lsi_id n"

text \<open>
  \<open>findNodeById\<close>: three nested loops, the first match returns. A keyword map that is
  \<open>null\<close> finds nothing, as the empty list does.
\<close>

fun find_lsi :: "string \<Rightarrow> RenderLsiNode list \<Rightarrow> node option" where
  "find_lsi x [] = None"
| "find_lsi x (l # ls) = (if lsi_id l = x then Some (Lsi l) else find_lsi x ls)"

fun find_l2 :: "string \<Rightarrow> RenderLevel2Node list \<Rightarrow> node option" where
  "find_l2 x [] = None"
| "find_l2 x (l2 # rest) =
     (if l2_id l2 = x then Some (L2 l2)
      else (case find_lsi x (lsi l2) of
              Some n \<Rightarrow> Some n
            | None \<Rightarrow> find_l2 x rest))"

fun findNodeById :: "RenderLevel1Node list \<Rightarrow> string \<Rightarrow> node option" where
  "findNodeById [] x = None"
| "findNodeById (l1 # rest) x =
     (if l1_id l1 = x then Some (L1 l1)
      else (case find_l2 x (children l1) of
              Some n \<Rightarrow> Some n
            | None \<Rightarrow> findNodeById rest x))"

definition getParentId :: "string \<Rightarrow> string option" where
  "getParentId childId =
     (let parts = split CHR ''-'' childId in
      if length parts \<le> 2 then None
      else Some (join CHR ''-'' (take (length parts - 2) parts)))"

fun getChildren :: "node \<Rightarrow> node list" where
  "getChildren (L1 n) = map L2 (children n)"
| "getChildren (L2 n) = map Lsi (lsi n)"
| "getChildren (Lsi n) = []"

text \<open>\<open>newSelection[k]\<close> read as a condition: the key is there and its value is true.\<close>

definition selected :: "SelectedKeywords \<Rightarrow> string \<Rightarrow> bool" where
  "selected sel k = (map_of sel k = Some True)"

text \<open>A \<open>forEach\<close> whose body may fail to return.\<close>

fun forEachM :: "('a \<Rightarrow> 's \<Rightarrow> 's option) \<Rightarrow> 'a list \<Rightarrow> 's \<Rightarrow> 's option" where
  "forEachM f [] s = Some s"
| "forEachM f (x # xs) s = (case f x s of None \<Rightarrow> None | Some s' \<Rightarrow> forEachM f xs s')"

text \<open>
  \<open>cascadeDown\<close> calls itself on the identifier of each child and looks the child up
  again by that identifier, so on a tree with repeated identifiers it need not return:
  the first argument bounds the depth of the calls, and \<open>None\<close> is a call that ran out
  of it.
\<close>

primrec cascadeDown ::
  "nat \<Rightarrow> RenderLevel1Node list \<Rightarrow> string \<Rightarrow> bool \<Rightarrow> SelectedKeywords \<Rightarrow> SelectedKeywords option"
where
  "cascadeDown 0 t nodeId isChecked newSelection = None"
| "cascadeDown (Suc fuel) t nodeId isChecked newSelection =
     (case findNodeById t nodeId of
        None \<Rightarrow> Some newSelection
      | Some (L1 n) \<Rightarrow>
          forEachM (\<lambda>child s.
              cascadeDown fuel t (l2_id child) isChecked (AList.update (l2_id child) isChecked s))
            (children n) newSelection
      | Some (L2 n) \<Rightarrow>
          Some (fold (\<lambda>l s. AList.update (lsi_id l) isChecked s) (lsi n) newSelection)
      | Some (Lsi n) \<Rightarrow> Some newSelection)"


text \<open>
  The parent found by \<open>getParentId\<close> is a proper prefix of the child identifier, which is
  why \<open>cascadeUp\<close> returns on every input.
\<close>

lemma split_ne [simp]: "split c s \<noteq> []"
  by (induction s) auto

lemma join_snoc: "ps \<noteq> [] \<Longrightarrow> join c (ps @ [q]) = join c ps @ c # q"
  by (induction c ps rule: join.induct) auto

lemma join_split: "join c (split c s) = s"
proof (induction s)
  case Nil
  then show ?case by simp
next
  case (Cons x xs)
  obtain p ps where sp: "split c xs = p # ps"
    by (cases "split c xs") auto
  show ?case using Cons sp by (cases ps) auto
qed

lemma getParentId_length:
  assumes "getParentId x = Some p"
  shows "length p < length x"
proof -
  define parts where "parts = split CHR ''-'' x"
  from assms have len: "2 < length parts"
    and p: "p = join CHR ''-'' (take (length parts - 2) parts)"
    by (auto simp: getParentId_def parts_def Let_def split: if_splits)
  define A where "A = take (length parts - 2) parts"
  have dr: "length (drop (length parts - 2) parts) = 2"
    using len by simp
  then obtain a b where ab: "drop (length parts - 2) parts = [a, b]"
    by (cases "drop (length parts - 2) parts" rule: list.exhaust; simp)
       (metis length_0_conv length_Suc_conv)
  have parts: "parts = A @ [a, b]"
    unfolding A_def ab[symmetric] by simp
  have A: "A \<noteq> []"
    using len by (auto simp: A_def)
  have "x = join CHR ''-'' parts"
    by (simp add: parts_def join_split)
  also have "\<dots> = join CHR ''-'' ((A @ [a]) @ [b])"
    by (simp add: parts)
  also have "\<dots> = join CHR ''-'' A @ CHR ''-'' # a @ CHR ''-'' # b"
  proof -
    have "join CHR ''-'' ((A @ [a]) @ [b]) = join CHR ''-'' (A @ [a]) @ CHR ''-'' # b"
      by (rule join_snoc) simp
    also have "join CHR ''-'' (A @ [a]) = join CHR ''-'' A @ CHR ''-'' # a"
      by (rule join_snoc) (rule A)
    finally show ?thesis by simp
  qed
  finally show ?thesis
    by (simp add: p A_def)
qed

text \<open>
  \<open>cascadeUp\<close>: \<open>!parentId\<close> holds for \<open>null\<close> and for the empty string; a parent that is
  not found, or that is a term, stops the walk.
\<close>

function cascadeUp ::
  "RenderLevel1Node list \<Rightarrow> string \<Rightarrow> SelectedKeywords \<Rightarrow> SelectedKeywords"
where
  "cascadeUp t nodeId newSelection =
     (case getParentId nodeId of
        None \<Rightarrow> newSelection
      | Some parentId \<Rightarrow>
          if parentId = [] then newSelection
          else
            (case findNodeById t parentId of
               None \<Rightarrow> newSelection
             | Some (Lsi n) \<Rightarrow> newSelection
             | Some parentNode \<Rightarrow>
                 let siblings = getChildren parentNode;
                     allSiblingsChecked =
                       list_all (\<lambda>s. selected newSelection (node_id s)) siblings
                 in cascadeUp t parentId
                      (if allSiblingsChecked then AList.update parentId True newSelection
                       else AList.delete parentId newSelection)))"
  by pat_completeness auto
termination
  by (relation "measure (\<lambda>(t, nodeId, s). length nodeId)") (auto dest: getParentId_length)

declare cascadeUp.simps [simp del]

text \<open>
  \<open>handleSelectionChange\<close>: the updater given to \<open>setSelectedKeywords\<close>, from the
  previous selection to the next one.
\<close>

definition handleSelectionChange ::
  "nat \<Rightarrow> RenderLevel1Node list \<Rightarrow> string \<Rightarrow> bool \<Rightarrow> SelectedKeywords \<Rightarrow> SelectedKeywords option"
where
  "handleSelectionChange fuel t nid checked prev =
     (case cascadeDown fuel t nid checked (AList.update nid checked prev) of
        None \<Rightarrow> None
      | Some newSelection \<Rightarrow>
          Some (filter (\<lambda>(k, v). v) (cascadeUp t nid newSelection)))"

text \<open>The identifiers of the nodes of a tree, which are the ones a click can toggle.\<close>

definition nodeIds :: "RenderLevel1Node list \<Rightarrow> string list" where
  "nodeIds t =
     concat (map (\<lambda>l1. l1_id l1 #
       concat (map (\<lambda>l2. l2_id l2 # map lsi_id (lsi l2)) (children l1))) t)"

text \<open>The selections reached from the empty one by toggling nodes of a fixed tree.\<close>

inductive reachable :: "RenderLevel1Node list \<Rightarrow> SelectedKeywords \<Rightarrow> bool"
  for t :: "RenderLevel1Node list"
where
  reachable_empty: "reachable t []"
| reachable_toggle:
    "reachable t s \<Longrightarrow> nid \<in> set (nodeIds t)
     \<Longrightarrow> handleSelectionChange fuel t nid checked s = Some s'
     \<Longrightarrow> reachable t s'"

section \<open>Augmentation\<close>

text \<open>
  The merge of \<open>handleGenerateLsi\<close> on the Level2 node it addresses: candidates whose text
  is among the node's texts are dropped, the others are appended.
\<close>

definition augmentLevel2 :: "RenderLevel2Node \<Rightarrow> string list \<Rightarrow> RenderLevel2Node" where
  "augmentLevel2 l2 newLsis =
     (let existingLsiTexts = set (map lsi_text (lsi l2));
          uniqueNewLsis =
            map (\<lambda>(index, t).
                 \<lparr>lsi_id = l2_id l2 @ ''-lsi-'' @ string_of_nat (length (lsi l2) + index),
                  lsi_text = t, isNew = Some True\<rparr>)
              (enumerate 0 (filter (\<lambda>nl. nl \<notin> existingLsiTexts) newLsis))
      in l2\<lparr>lsi := map (\<lambda>l. l\<lparr>isNew := Some False\<rparr>) (lsi l2) @ uniqueNewLsis\<rparr>)"

text \<open>The updater given to \<open>setKeywordMap\<close>; \<open>None\<close> is the \<open>null\<close> map.\<close>

definition mergeLsi ::
  "string \<Rightarrow> string \<Rightarrow> string list \<Rightarrow> RenderLevel1Node list option
   \<Rightarrow> RenderLevel1Node list option"
where
  "mergeLsi level1NodeId level2NodeId newLsis currentMap =
     (case currentMap of
        None \<Rightarrow> None
      | Some m \<Rightarrow>
          Some (map (\<lambda>l1.
            if l1_id l1 \<noteq> level1NodeId then l1
            else l1\<lparr>children :=
              map (\<lambda>l2. if l2_id l2 \<noteq> level2NodeId then l2 else augmentLevel2 l2 newLsis)
                (children l1)\<rparr>) m))"

section \<open>Filter view\<close>

record FilterState =
  category :: string
  f_pageType :: string
  userBehavior :: string

definition PAGE_TYPE_MAP :: "(string \<times> string) list" where
  "PAGE_TYPE_MAP =
     [(''Product Detail Pages'',
         [CHR 0xE4, CHR 0xBA, CHR 0xA7, CHR 0xE5, CHR 0x93, CHR 0x81, CHR 0xE8, CHR 0xAF,
          CHR 0xA6, CHR 0xE6, CHR 0x83, CHR 0x85, CHR 0xE7, CHR 0xB1, CHR 0xBB]),
      (''Article/Blog Pages'',
         [CHR 0xE6, CHR 0x96, CHR 0x87, CHR 0xE7, CHR 0xAB, CHR 0xA0, CHR 0xE7, CHR 0xB1,
          CHR 0xBB]),
      (''Hub/Category Pages'',
         [CHR 0xE8, CHR 0x81, CHR 0x9A, CHR 0xE5, CHR 0x90, CHR 0x88, CHR 0xE7, CHR 0xB1,
          CHR 0xBB]),
      ([CHR 0xE4, CHR 0xBA, CHR 0xA7, CHR 0xE5, CHR 0x93, CHR 0x81, CHR 0xE8, CHR 0xAF,
        CHR 0xA6, CHR 0xE6, CHR 0x83, CHR 0x85, CHR 0xE7, CHR 0xB1, CHR 0xBB],
         [CHR 0xE4, CHR 0xBA, CHR 0xA7, CHR 0xE5, CHR 0x93, CHR 0x81, CHR 0xE8, CHR 0xAF,
          CHR 0xA6, CHR 0xE6, CHR 0x83, CHR 0x85, CHR 0xE7, CHR 0xB1, CHR 0xBB]),
      ([CHR 0xE6, CHR 0x96, CHR 0x87, CHR 0xE7, CHR 0xAB, CHR 0xA0, CHR 0xE7, CHR 0xB1,
        CHR 0xBB],
         [CHR 0xE6, CHR 0x96, CHR 0x87, CHR 0xE7, CHR 0xAB, CHR 0xA0, CHR 0xE7, CHR 0xB1,
          CHR 0xBB]),
      ([CHR 0xE8, CHR 0x81, CHR 0x9A, CHR 0xE5, CHR 0x90, CHR 0x88, CHR 0xE7, CHR 0xB1,
        CHR 0xBB],
         [CHR 0xE8, CHR 0x81, CHR 0x9A, CHR 0xE5, CHR 0x90, CHR 0x88, CHR 0xE7, CHR 0xB1,
          CHR 0xBB])]"

text \<open>
  \<open>filteredKeywordMap\<close>: a value computed from the map and the filters. An empty string
  is a criterion that is not set.
\<close>

definition filteredKeywordMap ::
  "RenderLevel1Node list option \<Rightarrow> FilterState \<Rightarrow> RenderLevel1Node list option"
where
  "filteredKeywordMap keywordMap filters =
     (case keywordMap of
        None \<Rightarrow> None
      | Some m \<Rightarrow>
          if category filters = [] \<and> f_pageType filters = [] \<and> userBehavior filters = []
          then Some m
          else
            Some (filter (\<lambda>l1.
                (category filters = [] \<or> l1_type l1 = category filters)
                \<and> (f_pageType filters = []
                     \<or> map_of PAGE_TYPE_MAP (pageType l1) = Some (f_pageType filters))
                \<and> children l1 \<noteq> [])
              (map (\<lambda>l1.
                 l1\<lparr>children :=
                   (if userBehavior filters \<noteq> []
                    then filter (\<lambda>l2. startsWith (l2_type l2) (userBehavior filters))
                           (children l1)
                    else children l1)\<rparr>) m)))"

text \<open>
  The part of the component's state that the filter bar and the tree share: \<open>setFilters\<close>
  is the only thing \<open>onFilter\<close> and \<open>onReset\<close> do.
\<close>

record ViewState =
  vs_keywordMap :: "RenderLevel1Node list option"
  vs_selectedKeywords :: SelectedKeywords
  vs_filters :: FilterState

definition setFilters :: "FilterState \<Rightarrow> ViewState \<Rightarrow> ViewState" where
  "setFilters f st = st\<lparr>vs_filters := f\<rparr>"

definition noFilters :: FilterState where
  "noFilters = \<lparr>category = [], f_pageType = [], userBehavior = []\<rparr>"

definition shownMap :: "ViewState \<Rightarrow> RenderLevel1Node list option" where
  "shownMap st = filteredKeywordMap (vs_keywordMap st) (vs_filters st)"


section \<open>Saving a sub-project\<close>

subsection \<open>Version naming\<close>

definition baseNameOf :: "string \<Rightarrow> string" where
  "baseNameOf name = trim (stripVersion name)"

definition lineageOf :: "KeywordSubProject list \<Rightarrow> string \<Rightarrow> string \<Rightarrow> KeywordSubProject list" where
  "lineageOf keywordLibrary finalParentProjectId baseName =
     filter (\<lambda>sp. sp_parentProjectId sp = finalParentProjectId
                  \<and> baseNameOf (sp_name sp) = baseName) keywordLibrary"

definition versionedName :: "KeywordSubProject list \<Rightarrow> string \<Rightarrow> string \<Rightarrow> string" where
  "versionedName keywordLibrary finalParentProjectId subProjectName =
     (let finalSubProjectName = trim subProjectName;
          baseName = baseNameOf finalSubProjectName;
          lineage = lineageOf keywordLibrary finalParentProjectId baseName
      in if list_ex (\<lambda>sp. sp_name sp = finalSubProjectName) lineage
         then baseName @ '' (Version '' @ string_of_nat (length lineage + 1) @ '')''
         else finalSubProjectName)"

subsection \<open>Pruning\<close>

text \<open>\<open>Object.keys(selectedKeywords).some(key => key.startsWith(p))\<close>.\<close>

definition someKeyStartsWith :: "SelectedKeywords \<Rightarrow> string \<Rightarrow> bool" where
  "someKeyStartsWith sel p = list_ex (\<lambda>key. startsWith key p) (map fst sel)"

text \<open>\<open>Set.add\<close> on a set kept in insertion order.\<close>

definition setAdd :: "'a \<Rightarrow> 'a list \<Rightarrow> 'a list" where
  "setAdd x xs = (if x \<in> set xs then xs else xs @ [x])"

text \<open>
  The bodies of the two \<open>forEach\<close> loops, on the pair of the list pushed to and
  \<open>savedNodeIds\<close>.
\<close>

definition pruneLevel2 ::
  "SelectedKeywords \<Rightarrow> RenderLevel2Node \<Rightarrow> RenderLevel2Node list \<times> string list
   \<Rightarrow> RenderLevel2Node list \<times> string list"
where
  "pruneLevel2 sel l2 acc =
     (case acc of (savedChildren, savedNodeIds) \<Rightarrow>
        if \<not> someKeyStartsWith sel (l2_id l2) then (savedChildren, savedNodeIds)
        else
          let kept = filter (\<lambda>l. selected sel (lsi_id l)) (lsi l2);
              ids = fold (\<lambda>l. setAdd (lsi_id l)) kept savedNodeIds;
              savedLsi = map (\<lambda>l. \<lparr>lsi_id = lsi_id l, lsi_text = lsi_text l, isNew = None\<rparr>) kept
          in if selected sel (l2_id l2) \<or> savedLsi \<noteq> []
             then (savedChildren @ [l2\<lparr>lsi := savedLsi\<rparr>], setAdd (l2_id l2) ids)
             else (savedChildren, ids))"

definition pruneLevel1 ::
  "SelectedKeywords \<Rightarrow> RenderLevel1Node \<Rightarrow> RenderLevel1Node list \<times> string list
   \<Rightarrow> RenderLevel1Node list \<times> string list"
where
  "pruneLevel1 sel l1 acc =
     (case acc of (savedHierarchy, savedNodeIds) \<Rightarrow>
        if \<not> someKeyStartsWith sel (l1_id l1) then (savedHierarchy, savedNodeIds)
        else
          (case fold (pruneLevel2 sel) (children l1) ([], savedNodeIds) of
             (savedChildren, ids) \<Rightarrow>
               if selected sel (l1_id l1) \<or> savedChildren \<noteq> []
               then (savedHierarchy @ [l1\<lparr>children := savedChildren\<rparr>], setAdd (l1_id l1) ids)
               else (savedHierarchy, ids)))"

definition pruneTree ::
  "SelectedKeywords \<Rightarrow> RenderLevel1Node list \<Rightarrow> RenderLevel1Node list \<times> string list"
where
  "pruneTree sel keywordMap = fold (pruneLevel1 sel) keywordMap ([], [])"

text \<open>A translation is copied when \<open>translations[nodeId]\<close> is a non-empty string.\<close>

definition savedTranslationsOf :: "Translations \<Rightarrow> string list \<Rightarrow> Translations" where
  "savedTranslationsOf translations savedNodeIds =
     fold (\<lambda>nodeId acc.
        case map_of translations nodeId of
          None \<Rightarrow> acc
        | Some tr \<Rightarrow> if tr \<noteq> [] then AList.update nodeId tr acc else acc)
       savedNodeIds []"

subsection \<open>The save handler\<close>

record SaveState =
  subProjectName :: string
  parentProjectId :: string
  newParentProjectName :: string
  keywordMap :: "RenderLevel1Node list"
  selectedKeywords :: SelectedKeywords
  st_translations :: Translations
  keywordLibrary :: "KeywordSubProject list"
  generationModel :: "string option"

text \<open>
  What the handler gets from outside: whether there is a client and a session, the clock,
  and what the two inserts answer (an error message, or for the project the row's
  identifier).
\<close>

record SaveEnv =
  connected :: bool
  dateNow :: nat
  isoNow :: string
  projectInsert :: "string + string"
  subProjectInsert :: "string option"

datatype alert =
  EnterNewParentName | EnterNameAndParent | NothingSelected | SaveSucceeded | SaveFailed string

datatype event =
  Alert alert
| InsertProject string string
| InsertSubProject KeywordSubProject
| FetchData


definition newSubProjectOf :: "SaveEnv \<Rightarrow> SaveState \<Rightarrow> string \<Rightarrow> KeywordSubProject" where
  "newSubProjectOf env st finalParentProjectId =
     (case pruneTree (selectedKeywords st) (keywordMap st) of
        (savedHierarchy, savedNodeIds) \<Rightarrow>
          \<lparr>sp_id = ''subproj-'' @ string_of_nat (dateNow env),
           sp_name = versionedName (keywordLibrary st) finalParentProjectId (subProjectName st),
           sp_parentProjectId = finalParentProjectId,
           savedAt = isoNow env,
           modelUsed = (case generationModel st of
                          None \<Rightarrow> ''Unknown''
                        | Some nick \<Rightarrow> if nick = [] then ''Unknown'' else nick),
           sp_keywords = savedHierarchy,
           sp_translations = savedTranslationsOf (st_translations st) savedNodeIds\<rparr>)"

text \<open>
  The second half of \<open>handleSaveSubProject\<close>, once the parent project is known;
  \<open>calls\<close> holds the calls already made. After a successful insert \<open>fetchData\<close> reads the
  library again, which then holds the new row.
\<close>

definition saveUnder ::
  "SaveEnv \<Rightarrow> SaveState \<Rightarrow> event list \<Rightarrow> string \<Rightarrow> event list \<times> SaveState"
where
  "saveUnder env st calls finalParentProjectId =
     (if trim (subProjectName st) = [] \<or> finalParentProjectId = []
      then (calls @ [Alert EnterNameAndParent], st)
      else
        let newSubProject = newSubProjectOf env st finalParentProjectId in
        if sp_keywords newSubProject = [] then (calls @ [Alert NothingSelected], st)
        else
          (case subProjectInsert env of
             Some msg \<Rightarrow> (calls @ [InsertSubProject newSubProject, Alert (SaveFailed msg)], st)
           | None \<Rightarrow>
               (calls @ [InsertSubProject newSubProject, FetchData, Alert SaveSucceeded],
                st\<lparr>subProjectName := [], parentProjectId := [], newParentProjectName := [],
                   selectedKeywords := [],
                   keywordLibrary := keywordLibrary st @ [newSubProject]\<rparr>)))"

definition handleSaveSubProject :: "SaveEnv \<Rightarrow> SaveState \<Rightarrow> event list \<times> SaveState" where
  "handleSaveSubProject env st =
     (if \<not> connected env then ([], st)
      else if parentProjectId st = ''create_new'' then
        (if trim (newParentProjectName st) = [] then ([Alert EnterNewParentName], st)
         else
           let call = InsertProject (''proj-'' @ string_of_nat (dateNow env))
                        (trim (newParentProjectName st))
           in (case projectInsert env of
                 Inl msg \<Rightarrow> ([call, Alert (SaveFailed msg)], st)
               | Inr newId \<Rightarrow> saveUnder env st [call] newId))
      else saveUnder env st [] (parentProjectId st))"





section \<open>The pruning in the words of the specification\<close>

text \<open>The pruning as the specification words it: who is kept, and what is kept of it.\<close>

definition savedLsiOf :: "SelectedKeywords \<Rightarrow> RenderLevel2Node \<Rightarrow> RenderLsiNode list" where
  "savedLsiOf sel l2 =
     map (\<lambda>l. \<lparr>lsi_id = lsi_id l, lsi_text = lsi_text l, isNew = None\<rparr>)
       (filter (\<lambda>l. selected sel (lsi_id l)) (lsi l2))"

definition retainsLevel2 :: "SelectedKeywords \<Rightarrow> RenderLevel2Node \<Rightarrow> bool" where
  "retainsLevel2 sel l2 =
     (selected sel (l2_id l2) \<or> list_ex (\<lambda>l. selected sel (lsi_id l)) (lsi l2))"

definition retainsLevel1 :: "SelectedKeywords \<Rightarrow> RenderLevel1Node \<Rightarrow> bool" where
  "retainsLevel1 sel l1 =
     (selected sel (l1_id l1) \<or> list_ex (retainsLevel2 sel) (children l1))"

definition prunedLevel2 :: "SelectedKeywords \<Rightarrow> RenderLevel2Node \<Rightarrow> RenderLevel2Node" where
  "prunedLevel2 sel l2 = l2\<lparr>lsi := savedLsiOf sel l2\<rparr>"

definition prunedLevel1 :: "SelectedKeywords \<Rightarrow> RenderLevel1Node \<Rightarrow> RenderLevel1Node" where
  "prunedLevel1 sel l1 =
     l1\<lparr>children := map (prunedLevel2 sel) (filter (retainsLevel2 sel) (children l1))\<rparr>"

definition prunedHierarchy :: "SelectedKeywords \<Rightarrow> RenderLevel1Node list \<Rightarrow> RenderLevel1Node list" where
  "prunedHierarchy sel t = map (prunedLevel1 sel) (filter (retainsLevel1 sel) t)"

text \<open>The tests the code makes at a node, which add a test on the keys to the ones above.\<close>

definition codeKeeps2 :: "SelectedKeywords \<Rightarrow> RenderLevel2Node \<Rightarrow> bool" where
  "codeKeeps2 sel l2 = (someKeyStartsWith sel (l2_id l2) \<and> retainsLevel2 sel l2)"

definition codeKeeps1 :: "SelectedKeywords \<Rightarrow> RenderLevel1Node \<Rightarrow> bool" where
  "codeKeeps1 sel l1 =
     (someKeyStartsWith sel (l1_id l1)
      \<and> (selected sel (l1_id l1) \<or> filter (codeKeeps2 sel) (children l1) \<noteq> []))"

definition codePruned1 :: "SelectedKeywords \<Rightarrow> RenderLevel1Node \<Rightarrow> RenderLevel1Node" where
  "codePruned1 sel l1 =
     l1\<lparr>children := map (prunedLevel2 sel) (filter (codeKeeps2 sel) (children l1))\<rparr>"

text \<open>The identifiers below a node.\<close>

definition idsLevel2 :: "RenderLevel2Node \<Rightarrow> string set" where
  "idsLevel2 l2 = insert (l2_id l2) (lsi_id ` set (lsi l2))"

definition idsLevel1 :: "RenderLevel1Node \<Rightarrow> string set" where
  "idsLevel1 l1 = insert (l1_id l1) (\<Union>l2 \<in> set (children l1). idsLevel2 l2)"

text \<open>
  The test of the version naming in the words of the specification: a saved sub-project
  of the lineage of a name has literally that name.
\<close>

definition nameTaken :: "KeywordSubProject list \<Rightarrow> string \<Rightarrow> string \<Rightarrow> bool" where
  "nameTaken lib finalParentProjectId name =
     list_ex (\<lambda>sp. sp_name sp = name) (lineageOf lib finalParentProjectId (baseNameOf name))"

text \<open>
  Names for the parts of a toggle: the marks that the downward cascade writes, the
  recomputation of a parent that the upward cascade makes, and the final clean-up.
\<close>

definition markLsi :: "bool \<Rightarrow> RenderLevel2Node \<Rightarrow> SelectedKeywords \<Rightarrow> SelectedKeywords" where
  "markLsi v l2 s = fold (\<lambda>l s. AList.update (lsi_id l) v s) (lsi l2) s"

definition markChildren :: "bool \<Rightarrow> RenderLevel1Node \<Rightarrow> SelectedKeywords \<Rightarrow> SelectedKeywords" where
  "markChildren v l1 s = fold (\<lambda>c s. markLsi v c (AList.update (l2_id c) v s)) (children l1) s"

definition recompute :: "string \<Rightarrow> string list \<Rightarrow> SelectedKeywords \<Rightarrow> SelectedKeywords" where
  "recompute p ks s =
     (if list_all (selected s) ks then AList.update p True s else AList.delete p s)"

definition onlyTrue :: "SelectedKeywords \<Rightarrow> SelectedKeywords" where
  "onlyTrue s = filter (\<lambda>(k, v). v) s"

text \<open>
  The consistency of a selection with a tree: a node that has children is selected exactly
  when all its children are. \<open>consistentAt\<close> says the same by position, with the
  identifiers of the builder.
\<close>

definition consistent :: "RenderLevel1Node list \<Rightarrow> SelectedKeywords \<Rightarrow> bool" where
  "consistent t s =
     ((\<forall>l1 \<in> set t. children l1 \<noteq> [] \<longrightarrow>
         (selected s (l1_id l1) \<longleftrightarrow> (\<forall>c \<in> set (children l1). selected s (l2_id c))))
      \<and> (\<forall>l1 \<in> set t. \<forall>l2 \<in> set (children l1). lsi l2 \<noteq> [] \<longrightarrow>
         (selected s (l2_id l2) \<longleftrightarrow> (\<forall>l \<in> set (lsi l2). selected s (lsi_id l)))))"

definition consistentAt :: "RenderLevel1Node list \<Rightarrow> SelectedKeywords \<Rightarrow> bool" where
  "consistentAt t s =
     ((\<forall>a<length t. children (t ! a) \<noteq> [] \<longrightarrow>
         (selected s (l1id a) \<longleftrightarrow> (\<forall>b<length (children (t ! a)). selected s (l2id a b))))
      \<and> (\<forall>a<length t. \<forall>b<length (children (t ! a)). lsi (children (t ! a) ! b) \<noteq> [] \<longrightarrow>
         (selected s (l2id a b)
          \<longleftrightarrow> (\<forall>c<length (lsi (children (t ! a) ! b)). selected s (lsiid a b c)))))"

text \<open>What holds of every selection reached by toggles.\<close>

definition goodSelection :: "RenderLevel1Node list \<Rightarrow> SelectedKeywords \<Rightarrow> bool" where
  "goodSelection t s =
     (distinct (map fst s) \<and> (\<forall>k. (k \<in> fst ` set s) = selected s k) \<and> consistent t s)"

text \<open>
  The consistency without the condition on children: every node, with or without
  children, is selected exactly when all its children are.
\<close>

definition upwardConsistent :: "RenderLevel1Node list \<Rightarrow> SelectedKeywords \<Rightarrow> bool" where
  "upwardConsistent t s =
     list_all (\<lambda>l1.
        selected s (l1_id l1) = list_all (\<lambda>c. selected s (l2_id c)) (children l1)
        \<and> list_all (\<lambda>l2.
              selected s (l2_id l2) = list_all (\<lambda>l. selected s (lsi_id l)) (lsi l2))
            (children l1)) t"

section \<open>Example data\<close>

definition exampleRaw :: KeywordMap where
  "exampleRaw =
     \<lparr>coreUserIntent = ''bedding'',
      keywordHierarchy =
        [\<lparr>raw1_keyword = ''A'', raw1_type = ''traffic'', raw1_pageType = ''Hub/Category Pages'',
          raw1_children =
            [\<lparr>raw2_keyword = ''A1'', raw2_type = ''Decision (x)'',
              raw2_lsi = Some [''a'', ''b'', ''c'']\<rparr>,
             \<lparr>raw2_keyword = ''A2'', raw2_type = ''Trust (y)'', raw2_lsi = Some [''d'']\<rparr>]\<rparr>,
         \<lparr>raw1_keyword = ''B'', raw1_type = ''conversion'', raw1_pageType = ''other'',
          raw1_children =
            [\<lparr>raw2_keyword = ''B1'', raw2_type = ''Action (z)'', raw2_lsi = None\<rparr>]\<rparr>]\<rparr>"

definition exampleTree :: "RenderLevel1Node list" where
  "exampleTree =
     [\<lparr>l1_id = ''l1-0'', l1_keyword = ''A'', l1_type = ''traffic'',
       pageType = ''Hub/Category Pages'',
       children =
         [\<lparr>l2_id = ''l1-0-l2-0'', l2_keyword = ''A1'', l2_type = ''Decision (x)'',
           lsi = [\<lparr>lsi_id = ''l1-0-l2-0-lsi-0'', lsi_text = ''a'', isNew = None\<rparr>,
                  \<lparr>lsi_id = ''l1-0-l2-0-lsi-1'', lsi_text = ''b'', isNew = None\<rparr>,
                  \<lparr>lsi_id = ''l1-0-l2-0-lsi-2'', lsi_text = ''c'', isNew = None\<rparr>]\<rparr>,
          \<lparr>l2_id = ''l1-0-l2-1'', l2_keyword = ''A2'', l2_type = ''Trust (y)'',
           lsi = [\<lparr>lsi_id = ''l1-0-l2-1-lsi-0'', lsi_text = ''d'', isNew = None\<rparr>]\<rparr>]\<rparr>,
      \<lparr>l1_id = ''l1-1'', l1_keyword = ''B'', l1_type = ''conversion'', pageType = ''other'',
       children =
         [\<lparr>l2_id = ''l1-1-l2-0'', l2_keyword = ''B1'', l2_type = ''Action (z)'', lsi = []\<rparr>]\<rparr>]"

definition examplePick :: SelectedKeywords where
  "examplePick = [(''l1-0-l2-0-lsi-0'', True), (''l1-0-l2-0-lsi-2'', True)]"

definition exampleView :: ViewState where
  "exampleView =
     \<lparr>vs_keywordMap = Some exampleTree,
      vs_selectedKeywords = [(''l1-0-l2-0-lsi-0'', True)],
      vs_filters = noFilters\<rparr>"

definition exampleFilter :: FilterState where
  "exampleFilter = \<lparr>category = [], f_pageType = [], userBehavior = ''Decision''\<rparr>"

definition exampleLevel2 :: RenderLevel2Node where
  "exampleLevel2 =
     \<lparr>l2_id = ''l1-0-l2-1'', l2_keyword = ''A2'', l2_type = ''Trust (y)'',
      lsi = [\<lparr>lsi_id = ''l1-0-l2-1-lsi-0'', lsi_text = ''d'', isNew = Some True\<rparr>]\<rparr>"

definition exampleSave :: SaveState where
  "exampleSave =
     \<lparr>subProjectName = ''Bedding Keywords'',
      parentProjectId = ''P'',
      newParentProjectName = [],
      keywordMap = exampleTree,
      selectedKeywords = examplePick,
      st_translations = [(''l1-0-l2-0-lsi-0'', ''ah''), (''l1-1'', ''bee'')],
      keywordLibrary = [],
      generationModel = Some ''gemini''\<rparr>"

definition exampleEnv :: SaveEnv where
  "exampleEnv =
     \<lparr>connected = True, dateNow = 1700, isoNow = ''2025-01-01'',
      projectInsert = Inr ''P2'', subProjectInsert = None\<rparr>"

definition exampleSaved :: KeywordSubProject where
  "exampleSaved =
     \<lparr>sp_id = ''subproj-1700'',
      sp_name = ''Bedding Keywords'',
      sp_parentProjectId = ''P'',
      savedAt = ''2025-01-01'',
      modelUsed = ''gemini'',
      sp_keywords =
        [\<lparr>l1_id = ''l1-0'', l1_keyword = ''A'', l1_type = ''traffic'',
          pageType = ''Hub/Category Pages'',
          children =
            [\<lparr>l2_id = ''l1-0-l2-0'', l2_keyword = ''A1'', l2_type = ''Decision (x)'',
              lsi = [\<lparr>lsi_id = ''l1-0-l2-0-lsi-0'', lsi_text = ''a'', isNew = None\<rparr>,
                     \<lparr>lsi_id = ''l1-0-l2-0-lsi-2'', lsi_text = ''c'', isNew = None\<rparr>]\<rparr>]\<rparr>],
      sp_translations = [(''l1-0-l2-0-lsi-0'', ''ah'')]\<rparr>"

definition resubmit :: "SaveState \<Rightarrow> SaveState" where
  "resubmit st =
     st\<lparr>subProjectName := ''Bedding Keywords'', parentProjectId := ''P'',
        selectedKeywords := examplePick\<rparr>"

definition exampleSecond :: SaveState where
  "exampleSecond = resubmit (snd (handleSaveSubProject exampleEnv exampleSave))"

definition exampleThird :: SaveState where
  "exampleThird = resubmit (snd (handleSaveSubProject exampleEnv exampleSecond))"



definition exampleAll :: SelectedKeywords where
  "exampleAll =
     [(''l1-0'', True), (''l1-0-l2-0'', True), (''l1-0-l2-0-lsi-0'', True),
      (''l1-0-l2-0-lsi-1'', True), (''l1-0-l2-0-lsi-2'', True), (''l1-0-l2-1'', True),
      (''l1-0-l2-1-lsi-0'', True)]"

definition exampleOne :: SelectedKeywords where
  "exampleOne = [(''l1-0-l2-1-lsi-0'', True), (''l1-0-l2-1'', True)]"

section \<open>Identifiers and the parent of a node\<close>

lemma digit_char_table:
  "\<forall>d\<in>set [0..<10]. digit_char d \<noteq> CHR ''-'' \<and> isDigit (digit_char d)
     \<and> (\<forall>e\<in>set [0..<10]. digit_char d = digit_char e \<longrightarrow> d = e)"
  by code_simp

lemma digit_char_not_dash: "d < 10 \<Longrightarrow> digit_char d \<noteq> CHR ''-''"
  using digit_char_table by simp

lemma digit_char_inj: "d < 10 \<Longrightarrow> e < 10 \<Longrightarrow> digit_char d = digit_char e \<Longrightarrow> d = e"
  using digit_char_table by simp

lemma string_of_nat_no_dash: "CHR ''-'' \<notin> set (string_of_nat n)"
proof (induction n rule: string_of_nat.induct)
  case (1 n)
  show ?case
  proof (cases "n < 10")
    case True
    then show ?thesis
      using digit_char_not_dash[of n] by (auto simp: string_of_nat.simps[of n])
  next
    case False
    have "n mod 10 < 10" by simp
    then have "digit_char (n mod 10) \<noteq> CHR ''-''" by (rule digit_char_not_dash)
    with False 1 show ?thesis by (auto simp: string_of_nat.simps[of n])
  qed
qed

lemma string_of_nat_ne: "string_of_nat n \<noteq> []"
  by (subst string_of_nat.simps) simp

lemma string_of_nat_inj: "string_of_nat n = string_of_nat m \<Longrightarrow> n = m"
proof (induction n arbitrary: m rule: string_of_nat.induct)
  case (1 n)
  show ?case
  proof (cases "n < 10")
    case True
    note n = this
    show ?thesis
    proof (cases "m < 10")
      case True
      with n 1(2) show ?thesis
        by (simp add: string_of_nat.simps[of n] string_of_nat.simps[of m] digit_char_inj)
    next
      case False
      with n 1(2) have "[digit_char n] = string_of_nat (m div 10) @ [digit_char (m mod 10)]"
        by (simp add: string_of_nat.simps[of n] string_of_nat.simps[of m])
      then show ?thesis using string_of_nat_ne[of "m div 10"] by simp
    qed
  next
    case False
    note n = this
    show ?thesis
    proof (cases "m < 10")
      case True
      with n 1(2) have "string_of_nat (n div 10) @ [digit_char (n mod 10)] = [digit_char m]"
        by (simp add: string_of_nat.simps[of n] string_of_nat.simps[of m])
      then show ?thesis using string_of_nat_ne[of "n div 10"] by simp
    next
      case False
      with n 1(2) have e: "string_of_nat (n div 10) = string_of_nat (m div 10)"
        "digit_char (n mod 10) = digit_char (m mod 10)"
        by (simp_all add: string_of_nat.simps[of n] string_of_nat.simps[of m])
      from 1(1)[OF n e(1)] have "n div 10 = m div 10" .
      moreover have "n mod 10 = m mod 10"
        by (rule digit_char_inj[OF _ _ e(2)]) simp_all
      ultimately show ?thesis by (metis div_mult_mod_eq)
    qed
  qed
qed

lemma split_no_sep: "c \<notin> set s \<Longrightarrow> split c s = [s]"
  by (induction s) auto

lemma split_append_sep: "c \<notin> set a \<Longrightarrow> split c (a @ c # r) = a # split c r"
  by (induction a) auto

lemma split_l1id: "split CHR ''-'' (l1id i) = [''l1'', string_of_nat i]"
  using split_append_sep[of "CHR ''-''" "''l1''" "string_of_nat i"]
  by (simp add: l1id_def split_no_sep string_of_nat_no_dash)

lemma split_l2id: "split CHR ''-'' (l2id i j) = [''l1'', string_of_nat i, ''l2'', string_of_nat j]"
  using split_append_sep[of "CHR ''-''" "''l1''" "string_of_nat i @ ''-l2-'' @ string_of_nat j"]
    split_append_sep[of "CHR ''-''" "string_of_nat i" "''l2-'' @ string_of_nat j"]
    split_append_sep[of "CHR ''-''" "''l2''" "string_of_nat j"]
  by (simp add: l2id_def split_no_sep string_of_nat_no_dash)

lemma lsiid_l2id: "lsiid i j k = l2id i j @ ''-lsi-'' @ string_of_nat k"
  by (simp add: lsiid_def l2id_def)

lemma l2id_l1id: "l2id i j = l1id i @ ''-l2-'' @ string_of_nat j"
  by (simp add: l1id_def l2id_def)

lemma split_snoc_part:
  "c \<notin> set b \<Longrightarrow> split c (p @ c # b) = split c p @ [b]"
proof (induction p)
  case Nil
  then show ?case by (simp add: split_no_sep)
next
  case (Cons x xs)
  then show ?case by (cases "split c xs") auto
qed

lemma split_lsiid:
  "split CHR ''-'' (lsiid i j k)
   = [''l1'', string_of_nat i, ''l2'', string_of_nat j, ''lsi'', string_of_nat k]"
  using split_snoc_part[of "CHR ''-''" "string_of_nat k" "l2id i j @ ''-lsi''"]
    split_snoc_part[of "CHR ''-''" "''lsi''" "l2id i j"]
  by (simp add: lsiid_l2id split_l2id string_of_nat_no_dash)

lemma getParentId_two_segments:
  assumes "CHR ''-'' \<notin> set a" "CHR ''-'' \<notin> set b"
  shows "getParentId (p @ CHR ''-'' # a @ CHR ''-'' # b) = Some p"
proof -
  have 1: "split CHR ''-'' (p @ CHR ''-'' # a @ CHR ''-'' # b) = split CHR ''-'' p @ [a, b]"
    using split_snoc_part[OF assms(2), of "p @ CHR ''-'' # a"] split_snoc_part[OF assms(1), of p]
    by simp
  show ?thesis
    by (simp add: getParentId_def 1 Let_def join_split)
qed

lemma getParentId_l1id [simp]: "getParentId (l1id i) = None"
  by (simp add: getParentId_def split_l1id)

lemma getParentId_l2id [simp]: "getParentId (l2id i j) = Some (l1id i)"
  using getParentId_two_segments[of "''l2''" "string_of_nat j" "l1id i"]
  by (simp add: l2id_l1id string_of_nat_no_dash)

lemma getParentId_lsiid [simp]: "getParentId (lsiid i j k) = Some (l2id i j)"
  using getParentId_two_segments[of "''lsi''" "string_of_nat k" "l2id i j"]
  by (simp add: lsiid_l2id string_of_nat_no_dash)

lemma l1id_inj [simp]: "(l1id i = l1id i') = (i = i')"
  using string_of_nat_inj by (auto simp: l1id_def)

lemma l2id_inj [simp]: "(l2id i j = l2id i' j') = (i = i' \<and> j = j')"
proof
  assume "l2id i j = l2id i' j'"
  then have "split CHR ''-'' (l2id i j) = split CHR ''-'' (l2id i' j')" by simp
  then show "i = i' \<and> j = j'" by (auto simp: split_l2id dest: string_of_nat_inj)
qed simp

lemma lsiid_inj [simp]: "(lsiid i j k = lsiid i' j' k') = (i = i' \<and> j = j' \<and> k = k')"
proof
  assume "lsiid i j k = lsiid i' j' k'"
  then have "split CHR ''-'' (lsiid i j k) = split CHR ''-'' (lsiid i' j' k')" by simp
  then show "i = i' \<and> j = j' \<and> k = k'" by (auto simp: split_lsiid dest: string_of_nat_inj)
qed simp

lemma ids_distinct [simp]:
  "l1id i \<noteq> l2id i' j'" "l2id i' j' \<noteq> l1id i"
  "l1id i \<noteq> lsiid i' j' k'" "lsiid i' j' k' \<noteq> l1id i"
  "l2id i j \<noteq> lsiid i' j' k'" "lsiid i' j' k' \<noteq> l2id i j"
proof -
  have a: "\<And>x y. split CHR ''-'' x \<noteq> split CHR ''-'' y \<Longrightarrow> x \<noteq> y" by auto
  show "l1id i \<noteq> l2id i' j'" by (rule a) (simp add: split_l1id split_l2id)
  then show "l2id i' j' \<noteq> l1id i" by simp
  show "l1id i \<noteq> lsiid i' j' k'" by (rule a) (simp add: split_l1id split_lsiid)
  then show "lsiid i' j' k' \<noteq> l1id i" by simp
  show "l2id i j \<noteq> lsiid i' j' k'" by (rule a) (simp add: split_l2id split_lsiid)
  then show "lsiid i' j' k' \<noteq> l2id i j" by simp
qed

section \<open>The tree builder\<close>

lemma nth_map_enumerate:
  "n < length xs \<Longrightarrow> map (\<lambda>(i, x). f i x) (enumerate m xs) ! n = f (m + n) (xs ! n)"
  by (simp add: nth_enumerate_eq)

lemma wf_lsi_nth:
  "wf_lsi p k xs \<Longrightarrow> n < length xs \<Longrightarrow> lsi_id (xs ! n) = p @ ''-lsi-'' @ string_of_nat (k + n)"
proof (induction xs arbitrary: k n)
  case Nil
  then show ?case by simp
next
  case (Cons x xs)
  then show ?case by (cases n) auto
qed

lemma wf_l2_nth:
  "wf_l2 p j xs \<Longrightarrow> n < length xs \<Longrightarrow>
   l2_id (xs ! n) = p @ ''-l2-'' @ string_of_nat (j + n) \<and> wf_lsi (l2_id (xs ! n)) 0 (lsi (xs ! n))"
proof (induction xs arbitrary: j n)
  case Nil
  then show ?case by simp
next
  case (Cons x xs)
  then show ?case by (cases n) auto
qed

lemma wf_l1_nth:
  "wf_l1 i xs \<Longrightarrow> n < length xs \<Longrightarrow>
   l1_id (xs ! n) = l1id (i + n) \<and> wf_l2 (l1_id (xs ! n)) 0 (children (xs ! n))"
proof (induction xs arbitrary: i n)
  case Nil
  then show ?case by simp
next
  case (Cons x xs)
  then show ?case by (cases n) (auto simp: l1id_def)
qed

lemma wf_tree_l1:
  "wf_tree t \<Longrightarrow> i < length t \<Longrightarrow> l1_id (t ! i) = l1id i"
  using wf_l1_nth[of 0 t i] by (simp add: wf_tree_def)

lemma wf_tree_l2:
  assumes "wf_tree t" "i < length t" "j < length (children (t ! i))"
  shows "l2_id (children (t ! i) ! j) = l2id i j"
proof -
  from assms have a: "l1_id (t ! i) = l1id i" "wf_l2 (l1_id (t ! i)) 0 (children (t ! i))"
    using wf_l1_nth[of 0 t i] by (auto simp: wf_tree_def)
  from wf_l2_nth[OF a(2) assms(3)] show ?thesis
    by (simp add: a(1) l2id_l1id)
qed

lemma wf_tree_lsi:
  assumes "wf_tree t" "i < length t" "j < length (children (t ! i))"
    "k < length (lsi (children (t ! i) ! j))"
  shows "lsi_id (lsi (children (t ! i) ! j) ! k) = lsiid i j k"
proof -
  from assms have a: "wf_l2 (l1_id (t ! i)) 0 (children (t ! i))"
    using wf_l1_nth[of 0 t i] by (auto simp: wf_tree_def)
  from wf_l2_nth[OF a assms(3)]
  have b: "wf_lsi (l2_id (children (t ! i) ! j)) 0 (lsi (children (t ! i) ! j))"
    by blast
  from wf_lsi_nth[OF b assms(4)] show ?thesis
    by (simp add: wf_tree_l2[OF assms(1-3)] lsiid_l2id)
qed

lemma wf_lsi_build:
  "p = l2id i j \<Longrightarrow>
   wf_lsi p k
     (map (\<lambda>(k, lsiText). \<lparr>lsi_id = lsiid i j k, lsi_text = lsiText, isNew = None\<rparr>)
        (enumerate k ts))"
  by (induction ts arbitrary: k) (auto simp: lsiid_l2id)

lemma wf_l2_build:
  "p = l1id i \<Longrightarrow>
   wf_l2 p j
     (map (\<lambda>(j, l2).
          \<lparr>l2_id = l2id i j, l2_keyword = raw2_keyword l2, l2_type = raw2_type l2,
           lsi = map (\<lambda>(k, lsiText). \<lparr>lsi_id = lsiid i j k, lsi_text = lsiText, isNew = None\<rparr>)
                   (enumerate 0 (case raw2_lsi l2 of None \<Rightarrow> [] | Some ts \<Rightarrow> ts))\<rparr>)
        (enumerate j xs))"
proof (induction xs arbitrary: j)
  case Nil
  then show ?case by simp
next
  case (Cons x xs)
  have "l2id i j = p @ ''-l2-'' @ string_of_nat j"
    using Cons.prems by (simp add: l2id_l1id)
  then show ?case
    using Cons by (simp add: wf_lsi_build)
qed

lemma wf_l1_build:
  "wf_l1 i
     (map (\<lambda>(i, l1).
        \<lparr>l1_id = l1id i,
         l1_keyword = raw1_keyword l1,
         l1_type = raw1_type l1,
         pageType = raw1_pageType l1,
         children =
           map (\<lambda>(j, l2).
              \<lparr>l2_id = l2id i j,
               l2_keyword = raw2_keyword l2,
               l2_type = raw2_type l2,
               lsi =
                 map (\<lambda>(k, lsiText). \<lparr>lsi_id = lsiid i j k, lsi_text = lsiText, isNew = None\<rparr>)
                   (enumerate 0 (case raw2_lsi l2 of None \<Rightarrow> [] | Some ts \<Rightarrow> ts))\<rparr>)
             (enumerate 0 (raw1_children l1))\<rparr>)
       (enumerate i xs))"
proof (induction xs arbitrary: i)
  case Nil
  then show ?case by simp
next
  case (Cons x xs)
  have "l1id i = ''l1-'' @ string_of_nat i"
    by (simp add: l1id_def)
  then show ?case
    using Cons by (simp add: wf_l2_build)
qed

lemma wf_tree_transform: "wf_tree (transformToRenderableMap m)"
  by (simp add: wf_tree_def transformToRenderableMap_def wf_l1_build)

lemma exampleTree_built: "transformToRenderableMap exampleRaw = exampleTree"
  by code_simp

lemma wf_exampleTree: "wf_tree exampleTree"
  by code_simp

text \<open>
  C8. In every tree built by \<open>transformToRenderableMap\<close> the identifiers are the tree
  paths: \<open>l1-{i}\<close> for the Level1 node at position \<open>i\<close>, the parent's identifier
  followed by \<open>-l2-{j}\<close> for its child at position \<open>j\<close>, and the Level2 node's
  identifier followed by \<open>-lsi-{k}\<close> for its term at position \<open>k\<close>. \<open>getParentId\<close>
  gives no parent for a Level1 identifier and exactly the parent's identifier for a
  Level2 node and for a term.
\<close>

theorem builder_ids_and_parents:
  "length (transformToRenderableMap m) = length (keywordHierarchy m)
   \<and> (\<forall>i < length (transformToRenderableMap m).
        l1_id (transformToRenderableMap m ! i) = ''l1-'' @ string_of_nat i
        \<and> getParentId (l1_id (transformToRenderableMap m ! i)) = None
        \<and> length (children (transformToRenderableMap m ! i))
            = length (raw1_children (keywordHierarchy m ! i)))
   \<and> (\<forall>i < length (transformToRenderableMap m).
       \<forall>j < length (children (transformToRenderableMap m ! i)).
        l2_id (children (transformToRenderableMap m ! i) ! j)
          = l1_id (transformToRenderableMap m ! i) @ ''-l2-'' @ string_of_nat j
        \<and> getParentId (l2_id (children (transformToRenderableMap m ! i) ! j))
            = Some (l1_id (transformToRenderableMap m ! i)))
   \<and> (\<forall>i < length (transformToRenderableMap m).
       \<forall>j < length (children (transformToRenderableMap m ! i)).
       \<forall>k < length (lsi (children (transformToRenderableMap m ! i) ! j)).
        lsi_id (lsi (children (transformToRenderableMap m ! i) ! j) ! k)
          = l2_id (children (transformToRenderableMap m ! i) ! j) @ ''-lsi-'' @ string_of_nat k
        \<and> getParentId (lsi_id (lsi (children (transformToRenderableMap m ! i) ! j) ! k))
            = Some (l2_id (children (transformToRenderableMap m ! i) ! j)))"
proof -
  let ?t = "transformToRenderableMap m"
  have wf: "wf_tree ?t" by (rule wf_tree_transform)
  have len: "length ?t = length (keywordHierarchy m)"
    by (simp add: transformToRenderableMap_def)
  have len2: "length (children (?t ! i)) = length (raw1_children (keywordHierarchy m ! i))"
    if "i < length ?t" for i
    using that by (simp add: transformToRenderableMap_def nth_enumerate_eq)
  show ?thesis
    apply (simp add: len len2 wf_tree_l1[OF wf] wf_tree_l2[OF wf] wf_tree_lsi[OF wf])
    apply (simp add: l1id_def l2id_def lsiid_def)
    done
qed

theorem builder_ids_and_parents_witness:
  "length (transformToRenderableMap exampleRaw) = 2
   \<and> l1_id (transformToRenderableMap exampleRaw ! 0) = ''l1-0''
   \<and> getParentId ''l1-0'' = None
   \<and> l2_id (children (transformToRenderableMap exampleRaw ! 0) ! 1) = ''l1-0-l2-1''
   \<and> getParentId ''l1-0-l2-1'' = Some ''l1-0''
   \<and> lsi_id (lsi (children (transformToRenderableMap exampleRaw ! 0) ! 0) ! 2) = ''l1-0-l2-0-lsi-2''
   \<and> getParentId ''l1-0-l2-0-lsi-2'' = Some ''l1-0-l2-0''"
proof -
  have n: "string_of_nat 0 = ''0''" "string_of_nat (Suc 0) = ''1''" "string_of_nat 2 = ''2''"
    by code_simp+
  have h: "length (keywordHierarchy exampleRaw) = 2"
    "length (children (transformToRenderableMap exampleRaw ! 0)) = 2"
    "length (lsi (children (transformToRenderableMap exampleRaw ! 0) ! 0)) = 3"
    by (simp_all add: exampleTree_built) (simp_all add: exampleRaw_def exampleTree_def)
  note T = builder_ids_and_parents[of exampleRaw]
  note c1 = T[THEN conjunct2, THEN conjunct1, rule_format, of 0]
  note c2 = T[THEN conjunct2, THEN conjunct2, THEN conjunct1, rule_format, of 0 1]
  note c2' = T[THEN conjunct2, THEN conjunct2, THEN conjunct1, rule_format, of 0 0]
  note c3 = T[THEN conjunct2, THEN conjunct2, THEN conjunct2, rule_format, of 0 0 2]
  have len: "length (transformToRenderableMap exampleRaw) = 2"
    using T h by simp
  from c1 c2 c2' c3 h len show ?thesis
    by (auto simp: n)
qed

section \<open>The filter view\<close>

text \<open>
  C7. Setting the filters changes neither the keyword map nor the selection, and setting
  criteria and then the empty criteria shows again the map as it was, with the same
  selection.
\<close>

theorem filter_view_leaves_state:
  "vs_keywordMap (setFilters c st) = vs_keywordMap st
   \<and> vs_selectedKeywords (setFilters c st) = vs_selectedKeywords st
   \<and> shownMap (setFilters noFilters (setFilters c st)) = vs_keywordMap st
   \<and> vs_keywordMap (setFilters noFilters (setFilters c st)) = vs_keywordMap st
   \<and> vs_selectedKeywords (setFilters noFilters (setFilters c st)) = vs_selectedKeywords st"
  by (simp add: setFilters_def shownMap_def filteredKeywordMap_def noFilters_def
      split: option.splits)

theorem filter_view_leaves_state_witness:
  "shownMap (setFilters exampleFilter exampleView)
     = Some [(exampleTree ! 0)\<lparr>children := [children (exampleTree ! 0) ! 0]\<rparr>]
   \<and> shownMap (setFilters noFilters (setFilters exampleFilter exampleView)) = Some exampleTree
   \<and> vs_selectedKeywords (setFilters noFilters (setFilters exampleFilter exampleView))
       = [(''l1-0-l2-0-lsi-0'', True)]"
proof -
  have "shownMap (setFilters exampleFilter exampleView)
     = Some [(exampleTree ! 0)\<lparr>children := [children (exampleTree ! 0) ! 0]\<rparr>]"
    by (simp add: shownMap_def setFilters_def exampleFilter_def exampleView_def
        filteredKeywordMap_def exampleTree_def startsWith_def)
  moreover have "vs_keywordMap exampleView = Some exampleTree"
    "vs_selectedKeywords exampleView = [(''l1-0-l2-0-lsi-0'', True)]"
    by (simp_all add: exampleView_def)
  ultimately show ?thesis
    using filter_view_leaves_state[of exampleFilter exampleView] by simp
qed

section \<open>The augmentation merge\<close>

lemma augment_length:
  "length (lsi (augmentLevel2 n cands))
     = length (lsi n) + length (filter (\<lambda>c. c \<notin> set (map lsi_text (lsi n))) cands)"
  by (simp add: augmentLevel2_def)

lemma augment_texts:
  "map lsi_text (lsi (augmentLevel2 n cands))
     = map lsi_text (lsi n) @ filter (\<lambda>c. c \<notin> set (map lsi_text (lsi n))) cands"
proof -
  have "map (lsi_text \<circ> (\<lambda>(index, t). \<lparr>lsi_id = f index, lsi_text = t, isNew = Some True\<rparr>))
          (enumerate 0 xs) = xs" for f and xs :: "string list"
    by (rule nth_equalityI) (simp_all add: nth_enumerate_eq)
  then show ?thesis
    by (simp add: augmentLevel2_def comp_def)
qed

text \<open>
  C6 (amended). On a Level2 node whose term texts are pairwise distinct, the merge keeps
  every term at its place with \<open>isNew = false\<close>, drops each candidate whose text is the
  text of a term of the node, and appends the others in order, the one at position \<open>k\<close>
  with the identifier \<open>{parentId}-lsi-{existingCount + k}\<close> and \<open>isNew = true\<close>. The
  texts of the node are pairwise distinct afterwards when the candidates are pairwise
  distinct: candidates are compared with the terms of the node, not with each other.
\<close>

theorem augment_merge:
  assumes "distinct (map lsi_text (lsi n))"
  shows
    "(distinct cands \<longrightarrow> distinct (map lsi_text (lsi (augmentLevel2 n cands))))
     \<and> l2_id (augmentLevel2 n cands) = l2_id n
     \<and> length (lsi (augmentLevel2 n cands))
         = length (lsi n) + length (filter (\<lambda>c. c \<notin> set (map lsi_text (lsi n))) cands)
     \<and> (\<forall>k < length (lsi n).
           lsi (augmentLevel2 n cands) ! k = (lsi n ! k)\<lparr>isNew := Some False\<rparr>)
     \<and> (\<forall>k < length (filter (\<lambda>c. c \<notin> set (map lsi_text (lsi n))) cands).
           lsi (augmentLevel2 n cands) ! (length (lsi n) + k)
             = \<lparr>lsi_id = l2_id n @ ''-lsi-'' @ string_of_nat (length (lsi n) + k),
                lsi_text = filter (\<lambda>c. c \<notin> set (map lsi_text (lsi n))) cands ! k,
                isNew = Some True\<rparr>)
     \<and> (\<forall>c \<in> set cands. c \<in> set (map lsi_text (lsi n)) \<longrightarrow>
           c \<notin> set (map lsi_text (drop (length (lsi n)) (lsi (augmentLevel2 n cands)))))"
proof -
  let ?kept = "filter (\<lambda>c. c \<notin> set (map lsi_text (lsi n))) cands"
  have d: "distinct cands \<longrightarrow> distinct (map lsi_text (lsi (augmentLevel2 n cands)))"
    using assms by (auto simp: augment_texts)
  have old: "\<forall>k < length (lsi n).
      lsi (augmentLevel2 n cands) ! k = (lsi n ! k)\<lparr>isNew := Some False\<rparr>"
    by (simp add: augmentLevel2_def nth_append)
  have new: "\<forall>k < length ?kept.
      lsi (augmentLevel2 n cands) ! (length (lsi n) + k)
        = \<lparr>lsi_id = l2_id n @ ''-lsi-'' @ string_of_nat (length (lsi n) + k),
           lsi_text = ?kept ! k, isNew = Some True\<rparr>"
    by (simp add: augmentLevel2_def nth_append nth_enumerate_eq)
  have "map lsi_text (drop (length (lsi n)) (lsi (augmentLevel2 n cands))) = ?kept"
    using augment_texts[of n cands] by (simp add: drop_map[symmetric])
  then have disc: "\<forall>c \<in> set cands. c \<in> set (map lsi_text (lsi n)) \<longrightarrow>
      c \<notin> set (map lsi_text (drop (length (lsi n)) (lsi (augmentLevel2 n cands))))"
    by simp
  have "l2_id (augmentLevel2 n cands) = l2_id n"
    by (simp add: augmentLevel2_def)
  with d old new disc augment_length[of n cands] show ?thesis
    by blast
qed

theorem augment_merge_witness:
  "lsi (augmentLevel2 exampleLevel2 [''d'', ''e'', ''f''])
     = [\<lparr>lsi_id = ''l1-0-l2-1-lsi-0'', lsi_text = ''d'', isNew = Some False\<rparr>,
        \<lparr>lsi_id = ''l1-0-l2-1-lsi-1'', lsi_text = ''e'', isNew = Some True\<rparr>,
        \<lparr>lsi_id = ''l1-0-l2-1-lsi-2'', lsi_text = ''f'', isNew = Some True\<rparr>]
   \<and> distinct (map lsi_text (lsi (augmentLevel2 exampleLevel2 [''d'', ''e'', ''f''])))"
proof -
  have h: "distinct (map lsi_text (lsi exampleLevel2))"
    by (simp add: exampleLevel2_def)
  have c: "distinct [''d'', ''e'', ''f'']"
    by simp
  have e: "lsi (augmentLevel2 exampleLevel2 [''d'', ''e'', ''f''])
     = [\<lparr>lsi_id = ''l1-0-l2-1-lsi-0'', lsi_text = ''d'', isNew = Some False\<rparr>,
        \<lparr>lsi_id = ''l1-0-l2-1-lsi-1'', lsi_text = ''e'', isNew = Some True\<rparr>,
        \<lparr>lsi_id = ''l1-0-l2-1-lsi-2'', lsi_text = ''f'', isNew = Some True\<rparr>]"
    by code_simp
  from augment_merge[OF h, of "[''d'', ''e'', ''f'']"] c e show ?thesis
    by blast
qed

text \<open>
  C6 as stated fails for a candidate list that repeats a text: both copies are appended.
\<close>

theorem augment_merge_counterexample:
  "distinct (map lsi_text (lsi exampleLevel2))
   \<and> \<not> distinct (map lsi_text (lsi (augmentLevel2 exampleLevel2 [''x'', ''x''])))"
  by (simp add: exampleLevel2_def augmentLevel2_def)

text \<open>
  The merge keeps the identifiers of the builder, so the trees of the program are
  well-formed after it too, and it changes the node it addresses as \<open>augmentLevel2\<close> says.
\<close>

lemma wf_lsi_append:
  "wf_lsi p k (xs @ ys) = (wf_lsi p k xs \<and> wf_lsi p (k + length xs) ys)"
  by (induction xs arbitrary: k) auto

lemma wf_lsi_isNew: "wf_lsi p k (map (\<lambda>l. l\<lparr>isNew := b\<rparr>) xs) = wf_lsi p k xs"
  by (induction xs arbitrary: k) auto

lemma wf_lsi_new:
  "wf_lsi p (n + m)
     (map (\<lambda>(index, t). \<lparr>lsi_id = p @ ''-lsi-'' @ string_of_nat (n + index), lsi_text = t,
                          isNew = Some True\<rparr>) (enumerate m ts))"
proof (induction ts arbitrary: m)
  case Nil
  then show ?case by simp
next
  case (Cons a ts)
  from Cons[of "Suc m"] show ?case by simp
qed

lemma wf_lsi_augment:
  assumes "wf_lsi (l2_id l2) 0 (lsi l2)"
  shows "wf_lsi (l2_id (augmentLevel2 l2 cands)) 0 (lsi (augmentLevel2 l2 cands))"
  using assms wf_lsi_new[of "l2_id l2" "length (lsi l2)" 0]
  by (simp add: augmentLevel2_def wf_lsi_append wf_lsi_isNew)

lemma l2_id_augment [simp]: "l2_id (augmentLevel2 l2 cands) = l2_id l2"
  by (simp add: augmentLevel2_def)

lemma wf_l2_merge:
  "wf_l2 p j cs \<Longrightarrow>
   wf_l2 p j (map (\<lambda>l2. if l2_id l2 \<noteq> x then l2 else augmentLevel2 l2 cands) cs)"
proof (induction cs arbitrary: j)
  case Nil
  then show ?case by simp
next
  case (Cons c cs)
  then show ?case
    using wf_lsi_augment[of c cands] by auto
qed

lemma wf_l1_merge:
  "wf_l1 i t \<Longrightarrow>
   wf_l1 i (map (\<lambda>l1. if l1_id l1 \<noteq> a then l1
                        else l1\<lparr>children :=
                          map (\<lambda>l2. if l2_id l2 \<noteq> x then l2 else augmentLevel2 l2 cands)
                            (children l1)\<rparr>) t)"
  by (induction t arbitrary: i) (auto simp: wf_l2_merge)

lemma wf_tree_mergeLsi:
  assumes "wf_tree t" "mergeLsi a x cands (Some t) = Some t'"
  shows "wf_tree t'"
  using assms wf_l1_merge[of 0 t a x cands]
  by (auto simp: wf_tree_def mergeLsi_def)

lemma mergeLsi_at:
  assumes "wf_tree t" "i < length t" "j < length (children (t ! i))"
    "mergeLsi (l1id i) (l2id i j) cands (Some t) = Some t'"
  shows "children (t' ! i) ! j = augmentLevel2 (children (t ! i) ! j) cands"
  using assms wf_tree_l1[OF assms(1,2)] wf_tree_l2[OF assms(1-3)]
  by (auto simp: mergeLsi_def)

section \<open>Pruning on save\<close>

lemma selected_key: "selected sel k \<Longrightarrow> k \<in> set (map fst sel)"
  by (auto simp: selected_def dest: map_of_SomeD intro: rev_image_eqI)

lemma startsWith_refl [simp]: "startsWith s s"
  by (simp add: startsWith_def)

lemma startsWith_append [simp]: "startsWith (p @ r) p"
  by (simp add: startsWith_def)

lemma selected_startsWith:
  "selected sel k \<Longrightarrow> startsWith k p \<Longrightarrow> someKeyStartsWith sel p"
  using selected_key[of sel k] by (auto simp: someKeyStartsWith_def list_ex_iff)

text \<open>The keys that hold a Level2 node in the code are there whenever it is retained.\<close>

lemma wf_lsi_prefix:
  "wf_lsi p k xs \<Longrightarrow> l \<in> set xs \<Longrightarrow> startsWith (lsi_id l) p"
  by (induction xs arbitrary: k) auto

lemma wf_l2_prefix:
  "wf_l2 p j xs \<Longrightarrow> l2 \<in> set xs \<Longrightarrow>
   startsWith (l2_id l2) p \<and> wf_lsi (l2_id l2) 0 (lsi l2)
   \<and> (\<forall>l \<in> set (lsi l2). startsWith (lsi_id l) p)"
proof (induction xs arbitrary: j)
  case Nil
  then show ?case by simp
next
  case (Cons x xs)
  show ?case
  proof (cases "l2 = x")
    case True
    with Cons.prems have id: "l2_id l2 = p @ ''-l2-'' @ string_of_nat j"
      and w: "wf_lsi (l2_id l2) 0 (lsi l2)" by auto
    have "startsWith (lsi_id l) p" if "l \<in> set (lsi l2)" for l
    proof -
      from wf_lsi_prefix[OF w that] have "take (length (l2_id l2)) (lsi_id l) = l2_id l2"
        by (simp add: startsWith_def)
      then have "take (length p) (take (length (l2_id l2)) (lsi_id l)) = take (length p) (l2_id l2)"
        by simp
      then show ?thesis by (simp add: startsWith_def id min_def)
    qed
    with id w show ?thesis by simp
  next
    case False
    with Cons show ?thesis by auto
  qed
qed

lemma wf_l1_mem:
  "wf_l1 i xs \<Longrightarrow> l1 \<in> set xs \<Longrightarrow> wf_l2 (l1_id l1) 0 (children l1)"
  by (induction xs arbitrary: i) auto

lemma guard2:
  assumes "wf_lsi (l2_id l2) 0 (lsi l2)" "retainsLevel2 sel l2"
  shows "someKeyStartsWith sel (l2_id l2)"
  using assms
  by (auto simp: retainsLevel2_def list_ex_iff
      intro: selected_startsWith[of sel "l2_id l2"] selected_startsWith wf_lsi_prefix)

lemma guard1:
  assumes "wf_l2 (l1_id l1) 0 (children l1)" "retainsLevel1 sel l1"
  shows "someKeyStartsWith sel (l1_id l1)"
proof (cases "selected sel (l1_id l1)")
  case True
  then show ?thesis by (rule selected_startsWith) simp
next
  case False
  with assms(2) obtain l2 where l2: "l2 \<in> set (children l1)" "retainsLevel2 sel l2"
    by (auto simp: retainsLevel1_def list_ex_iff)
  note p = wf_l2_prefix[OF assms(1) l2(1)]
  from l2(2) show ?thesis
    unfolding retainsLevel2_def list_ex_iff
  proof
    assume "selected sel (l2_id l2)"
    then show ?thesis using p by (auto intro: selected_startsWith)
  next
    assume "\<exists>l\<in>set (lsi l2). selected sel (lsi_id l)"
    then show ?thesis using p by (auto intro: selected_startsWith)
  qed
qed

lemma set_fold_setAdd: "set (fold (\<lambda>l. setAdd (f l)) xs ids) = set ids \<union> f ` set xs"
  by (induction xs arbitrary: ids) (auto simp: setAdd_def)

lemma set_setAdd [simp]: "set (setAdd x xs) = insert x (set xs)"
  by (auto simp: setAdd_def)

text \<open>What one step of each loop does, in terms of the tests of the code.\<close>

lemma savedLsi_empty: "(savedLsiOf sel l2 \<noteq> []) = list_ex (\<lambda>l. selected sel (lsi_id l)) (lsi l2)"
  by (auto simp: savedLsiOf_def list_ex_iff filter_empty_conv)

lemma pruneLevel2_step:
  "pruneLevel2 sel l2 (sc, ids) =
     (if codeKeeps2 sel l2 then sc @ [prunedLevel2 sel l2] else sc,
      if someKeyStartsWith sel (l2_id l2)
      then (if retainsLevel2 sel l2
            then setAdd (l2_id l2)
                   (fold (\<lambda>l. setAdd (lsi_id l)) (filter (\<lambda>l. selected sel (lsi_id l)) (lsi l2)) ids)
            else fold (\<lambda>l. setAdd (lsi_id l)) (filter (\<lambda>l. selected sel (lsi_id l)) (lsi l2)) ids)
      else ids)"
  using savedLsi_empty[of sel l2]
  by (auto simp: pruneLevel2_def codeKeeps2_def retainsLevel2_def prunedLevel2_def
      savedLsiOf_def Let_def)

lemma idsLevel2_pruned:
  "idsLevel2 (prunedLevel2 sel l2)
     = insert (l2_id l2) (lsi_id ` {l \<in> set (lsi l2). selected sel (lsi_id l)})"
  by (simp add: idsLevel2_def prunedLevel2_def savedLsiOf_def image_image)

lemma fold_pruneLevel2:
  "fold (pruneLevel2 sel) cs (sc, ids) = (sc', ids') \<Longrightarrow>
   sc' = sc @ map (prunedLevel2 sel) (filter (codeKeeps2 sel) cs)
   \<and> set ids' = set ids \<union> (\<Union>l2 \<in> set (filter (codeKeeps2 sel) cs). idsLevel2 (prunedLevel2 sel l2))"
proof (induction cs arbitrary: sc ids)
  case Nil
  then show ?case by simp
next
  case (Cons c cs)
  obtain sc1 ids1 where st: "pruneLevel2 sel c (sc, ids) = (sc1, ids1)"
    by (cases "pruneLevel2 sel c (sc, ids)")
  with Cons.prems have "fold (pruneLevel2 sel) cs (sc1, ids1) = (sc', ids')" by simp
  from Cons.IH[OF this] have ih: "sc' = sc1 @ map (prunedLevel2 sel) (filter (codeKeeps2 sel) cs)"
    "set ids' = set ids1 \<union> (\<Union>l2 \<in> set (filter (codeKeeps2 sel) cs). idsLevel2 (prunedLevel2 sel l2))"
    by simp_all
  from st have sc1: "sc1 = (if codeKeeps2 sel c then sc @ [prunedLevel2 sel c] else sc)"
    by (simp add: pruneLevel2_step)
  have ids1: "set ids1 = set ids \<union> (if codeKeeps2 sel c then idsLevel2 (prunedLevel2 sel c) else {})"
  proof (cases "someKeyStartsWith sel (l2_id c)")
    case False
    with st show ?thesis by (simp add: pruneLevel2_step codeKeeps2_def)
  next
    case True
    note g = this
    show ?thesis
    proof (cases "retainsLevel2 sel c")
      case True
      with g st show ?thesis
        by (auto simp: pruneLevel2_step codeKeeps2_def set_fold_setAdd idsLevel2_pruned)
    next
      case False
      then have "filter (\<lambda>l. selected sel (lsi_id l)) (lsi c) = []"
        by (auto simp: retainsLevel2_def list_ex_iff filter_empty_conv)
      with False g st show ?thesis
        by (simp add: pruneLevel2_step codeKeeps2_def)
    qed
  qed
  show ?case using ih sc1 ids1 by auto
qed

lemma set_nodeIds: "set (nodeIds t) = (\<Union>l1 \<in> set t. idsLevel1 l1)"
  by (auto simp: nodeIds_def idsLevel1_def idsLevel2_def)

lemma pruneLevel1_step:
  assumes "pruneLevel1 sel l1 (sh, ids) = (sh1, ids1)"
  shows "sh1 = (if codeKeeps1 sel l1 then sh @ [codePruned1 sel l1] else sh)
         \<and> set ids1 = set ids \<union> (if codeKeeps1 sel l1 then idsLevel1 (codePruned1 sel l1) else {})"
proof (cases "someKeyStartsWith sel (l1_id l1)")
  case False
  with assms show ?thesis
    by (auto simp: pruneLevel1_def codeKeeps1_def)
next
  case True
  obtain sc idsc where f: "fold (pruneLevel2 sel) (children l1) ([], ids) = (sc, idsc)"
    by (cases "fold (pruneLevel2 sel) (children l1) ([], ids)")
  from fold_pruneLevel2[OF f]
  have sc: "sc = map (prunedLevel2 sel) (filter (codeKeeps2 sel) (children l1))"
    and idsc: "set idsc = set ids \<union>
        (\<Union>l2 \<in> set (filter (codeKeeps2 sel) (children l1)). idsLevel2 (prunedLevel2 sel l2))"
    by simp_all
  show ?thesis
  proof (cases "selected sel (l1_id l1) \<or> sc \<noteq> []")
    case True
    then have k: "codeKeeps1 sel l1"
      using \<open>someKeyStartsWith sel (l1_id l1)\<close> by (auto simp: codeKeeps1_def sc)
    from True assms f \<open>someKeyStartsWith sel (l1_id l1)\<close>
    have "sh1 = sh @ [l1\<lparr>children := sc\<rparr>]" "ids1 = setAdd (l1_id l1) idsc"
      by (auto simp: pruneLevel1_def)
    with k show ?thesis
      by (auto simp: codePruned1_def sc idsc idsLevel1_def)
  next
    case False
    then have k: "\<not> codeKeeps1 sel l1" and e: "filter (codeKeeps2 sel) (children l1) = []"
      by (auto simp: codeKeeps1_def sc)
    from False assms f \<open>someKeyStartsWith sel (l1_id l1)\<close>
    have "sh1 = sh" "ids1 = idsc"
      by (auto simp: pruneLevel1_def)
    with k show ?thesis
      by (simp add: idsc e)
  qed
qed

lemma fold_pruneLevel1:
  "fold (pruneLevel1 sel) t (sh, ids) = (sh', ids') \<Longrightarrow>
   sh' = sh @ map (codePruned1 sel) (filter (codeKeeps1 sel) t)
   \<and> set ids' = set ids \<union> (\<Union>l1 \<in> set (filter (codeKeeps1 sel) t). idsLevel1 (codePruned1 sel l1))"
proof (induction t arbitrary: sh ids)
  case Nil
  then show ?case by simp
next
  case (Cons c cs)
  obtain sh1 ids1 where st: "pruneLevel1 sel c (sh, ids) = (sh1, ids1)"
    by (cases "pruneLevel1 sel c (sh, ids)")
  with Cons.prems have "fold (pruneLevel1 sel) cs (sh1, ids1) = (sh', ids')" by simp
  from Cons.IH[OF this] pruneLevel1_step[OF st] show ?case by auto
qed

lemma pruneTree_code:
  "fst (pruneTree sel t) = map (codePruned1 sel) (filter (codeKeeps1 sel) t)"
  "set (snd (pruneTree sel t)) = set (nodeIds (fst (pruneTree sel t)))"
proof -
  obtain sh ids where f: "fold (pruneLevel1 sel) t ([], []) = (sh, ids)"
    by (cases "fold (pruneLevel1 sel) t ([], [])")
  from fold_pruneLevel1[OF f] show "fst (pruneTree sel t) = map (codePruned1 sel) (filter (codeKeeps1 sel) t)"
    by (simp add: pruneTree_def f)
  from fold_pruneLevel1[OF f] show "set (snd (pruneTree sel t)) = set (nodeIds (fst (pruneTree sel t)))"
    by (simp add: pruneTree_def f set_nodeIds)
qed

lemma codeKeeps2_wf:
  assumes "wf_l2 p 0 cs"
  shows "filter (codeKeeps2 sel) cs = filter (retainsLevel2 sel) cs"
proof (rule filter_cong[OF refl])
  fix c assume "c \<in> set cs"
  from wf_l2_prefix[OF assms this] have "wf_lsi (l2_id c) 0 (lsi c)" by simp
  then show "codeKeeps2 sel c = retainsLevel2 sel c"
    using guard2[of c sel] by (auto simp: codeKeeps2_def)
qed

lemma codeKeeps1_wf:
  assumes "wf_l2 (l1_id l1) 0 (children l1)"
  shows "codeKeeps1 sel l1 = retainsLevel1 sel l1"
    and "codePruned1 sel l1 = prunedLevel1 sel l1"
proof -
  have e: "filter (codeKeeps2 sel) (children l1) = filter (retainsLevel2 sel) (children l1)"
    by (rule codeKeeps2_wf[OF assms])
  have r: "retainsLevel1 sel l1 =
      (selected sel (l1_id l1) \<or> filter (retainsLevel2 sel) (children l1) \<noteq> [])"
    by (auto simp: retainsLevel1_def list_ex_iff filter_empty_conv)
  show "codeKeeps1 sel l1 = retainsLevel1 sel l1"
    using guard1[OF assms, of sel] by (auto simp: codeKeeps1_def e r)
  show "codePruned1 sel l1 = prunedLevel1 sel l1"
    by (simp add: codePruned1_def prunedLevel1_def e)
qed

text \<open>
  C2. On a tree with the builder's identifiers and for every selection, the hierarchy
  that the save handler builds is the pruned hierarchy of the specification: a Level1
  node is kept exactly when it is selected or one of its Level2 nodes is kept, a Level2
  node exactly when it is selected or one of its terms is selected, a term exactly when
  it is selected; nothing else is in the result.
\<close>

theorem pruning_retains_selected:
  assumes "wf_tree t"
  shows "fst (pruneTree sel t) = prunedHierarchy sel t"
proof -
  have w: "wf_l2 (l1_id l1) 0 (children l1)" if "l1 \<in> set t" for l1
    using assms that by (auto simp: wf_tree_def dest: wf_l1_mem)
  have "filter (codeKeeps1 sel) t = filter (retainsLevel1 sel) t"
    by (rule filter_cong[OF refl]) (simp add: codeKeeps1_wf(1)[OF w])
  moreover have "map (codePruned1 sel) (filter (retainsLevel1 sel) t)
      = map (prunedLevel1 sel) (filter (retainsLevel1 sel) t)"
    by (rule map_cong[OF refl]) (simp add: codeKeeps1_wf(2)[OF w])
  ultimately show ?thesis
    by (simp add: pruneTree_code(1) prunedHierarchy_def)
qed

theorem pruning_retains_selected_witness:
  "wf_tree exampleTree
   \<and> fst (pruneTree examplePick exampleTree)
      = [\<lparr>l1_id = ''l1-0'', l1_keyword = ''A'', l1_type = ''traffic'',
          pageType = ''Hub/Category Pages'',
          children =
            [\<lparr>l2_id = ''l1-0-l2-0'', l2_keyword = ''A1'', l2_type = ''Decision (x)'',
              lsi = [\<lparr>lsi_id = ''l1-0-l2-0-lsi-0'', lsi_text = ''a'', isNew = None\<rparr>,
                     \<lparr>lsi_id = ''l1-0-l2-0-lsi-2'', lsi_text = ''c'', isNew = None\<rparr>]\<rparr>]\<rparr>]"
proof -
  have "prunedHierarchy examplePick exampleTree
      = [\<lparr>l1_id = ''l1-0'', l1_keyword = ''A'', l1_type = ''traffic'',
          pageType = ''Hub/Category Pages'',
          children =
            [\<lparr>l2_id = ''l1-0-l2-0'', l2_keyword = ''A1'', l2_type = ''Decision (x)'',
              lsi = [\<lparr>lsi_id = ''l1-0-l2-0-lsi-0'', lsi_text = ''a'', isNew = None\<rparr>,
                     \<lparr>lsi_id = ''l1-0-l2-0-lsi-2'', lsi_text = ''c'', isNew = None\<rparr>]\<rparr>]\<rparr>]"
    by code_simp
  with pruning_retains_selected[OF wf_exampleTree, of examplePick] wf_exampleTree
  show ?thesis by simp
qed

section \<open>The saved record\<close>

lemma set_update_subset: "set (AList.update k v al) \<subseteq> insert (k, v) (set al)"
  by (induction al) auto

lemma savedTranslations_fold:
  assumes "\<forall>(k, v) \<in> set acc. k \<in> A \<and> map_of trs k = Some v"
    and "set ns \<subseteq> A"
  shows "\<forall>(k, v) \<in> set (fold (\<lambda>nodeId acc.
            case map_of trs nodeId of
              None \<Rightarrow> acc
            | Some tr \<Rightarrow> if tr \<noteq> [] then AList.update nodeId tr acc else acc) ns acc).
          k \<in> A \<and> map_of trs k = Some v"
  using assms
proof (induction ns arbitrary: acc)
  case Nil
  then show ?case by simp
next
  case (Cons n ns)
  let ?acc1 = "case map_of trs n of
              None \<Rightarrow> acc
            | Some tr \<Rightarrow> if tr \<noteq> [] then AList.update n tr acc else acc"
  have "\<forall>(k, v) \<in> set ?acc1. k \<in> A \<and> map_of trs k = Some v"
    using Cons.prems set_update_subset[of n _ acc]
    by (auto split: option.splits)
  from Cons.IH[OF this] Cons.prems(2) show ?case by simp
qed

lemma savedTranslations_sound:
  "\<forall>(k, v) \<in> set (savedTranslationsOf trs ns). k \<in> set ns \<and> map_of trs k = Some v"
  unfolding savedTranslationsOf_def
  by (rule savedTranslations_fold) simp_all

lemma pruned_isNew:
  assumes "l1 \<in> set (fst (pruneTree sel t))" "l2 \<in> set (children l1)" "l \<in> set (lsi l2)"
  shows "isNew l = None"
  using assms
  by (auto simp: pruneTree_code(1) codePruned1_def prunedLevel2_def savedLsiOf_def)

lemma newSubProjectOf_fields:
  "sp_keywords (newSubProjectOf env st p) = fst (pruneTree (selectedKeywords st) (keywordMap st))"
  "sp_translations (newSubProjectOf env st p)
     = savedTranslationsOf (st_translations st) (snd (pruneTree (selectedKeywords st) (keywordMap st)))"
  "sp_name (newSubProjectOf env st p) = versionedName (keywordLibrary st) p (subProjectName st)"
  "sp_parentProjectId (newSubProjectOf env st p) = p"
  by (simp_all add: newSubProjectOf_def split: prod.splits)

lemma inserted_is_new:
  assumes "InsertSubProject sp \<in> set (fst (handleSaveSubProject env st))"
  shows "\<exists>p. sp = newSubProjectOf env st p"
  using assms
  by (auto simp: handleSaveSubProject_def saveUnder_def Let_def
      split: if_splits sum.splits option.splits)

lemma exampleSave_run:
  "fst (handleSaveSubProject exampleEnv exampleSave)
     = [InsertSubProject exampleSaved, FetchData, Alert SaveSucceeded]"
  by code_simp

text \<open>
  C10. In every sub-project that the save handler inserts, each term of the hierarchy
  has the fields \<open>id\<close> and \<open>text\<close> only (no \<open>isNew\<close>), every key of the saved
  translations is the identifier of a node of the saved hierarchy, and every saved
  translation is an entry of the translations of the state.
\<close>

theorem saved_record_shape:
  assumes "InsertSubProject sp \<in> set (fst (handleSaveSubProject env st))"
  shows "(\<forall>l1 \<in> set (sp_keywords sp). \<forall>l2 \<in> set (children l1). \<forall>l \<in> set (lsi l2).
            isNew l = None)
         \<and> fst ` set (sp_translations sp) \<subseteq> set (nodeIds (sp_keywords sp))
         \<and> (\<forall>(k, v) \<in> set (sp_translations sp). map_of (st_translations st) k = Some v)"
proof -
  from inserted_is_new[OF assms] obtain p where sp: "sp = newSubProjectOf env st p" ..
  let ?pr = "pruneTree (selectedKeywords st) (keywordMap st)"
  have a: "\<forall>l1 \<in> set (sp_keywords sp). \<forall>l2 \<in> set (children l1). \<forall>l \<in> set (lsi l2).
            isNew l = None"
    using pruned_isNew by (auto simp: sp newSubProjectOf_fields)
  note s = savedTranslations_sound[of "st_translations st" "snd ?pr"]
  have b: "fst ` set (sp_translations sp) \<subseteq> set (nodeIds (sp_keywords sp))"
    using s by (auto simp: sp newSubProjectOf_fields pruneTree_code(2)[symmetric])
  have c: "\<forall>(k, v) \<in> set (sp_translations sp). map_of (st_translations st) k = Some v"
    using s by (auto simp: sp newSubProjectOf_fields)
  from a b c show ?thesis by blast
qed

theorem saved_record_shape_witness:
  "fst (handleSaveSubProject exampleEnv exampleSave)
     = [InsertSubProject exampleSaved, FetchData, Alert SaveSucceeded]
   \<and> fst ` set (sp_translations exampleSaved) \<subseteq> set (nodeIds (sp_keywords exampleSaved))
   \<and> map_of (st_translations exampleSave) ''l1-0-l2-0-lsi-0'' = Some ''ah''
   \<and> isNew (lsi (children (sp_keywords exampleSaved ! 0) ! 0) ! 1) = None"
proof -
  have i: "InsertSubProject exampleSaved \<in> set (fst (handleSaveSubProject exampleEnv exampleSave))"
    by (simp add: exampleSave_run)
  have m: "(''l1-0-l2-0-lsi-0'', ''ah'') \<in> set (sp_translations exampleSaved)"
    by (simp add: exampleSaved_def)
  have n: "isNew (lsi (children (sp_keywords exampleSaved ! 0) ! 0) ! 1) = None"
    by (simp add: exampleSaved_def)
  from saved_record_shape[OF i] m n exampleSave_run show ?thesis
    by blast
qed

section \<open>Version naming\<close>

lemma string_of_nat_digits: "\<forall>c \<in> set (string_of_nat n). isDigit c"
proof (induction n rule: string_of_nat.induct)
  case (1 n)
  have d: "isDigit (digit_char k)" if "k < 10" for k
    using digit_char_table that by simp
  show ?case
  proof (cases "n < 10")
    case True
    then show ?thesis by (simp add: string_of_nat.simps[of n] d)
  next
    case False
    with 1 show ?thesis by (simp add: string_of_nat.simps[of n] d)
  qed
qed

lemma takeWhile_run:
  "\<forall>x \<in> set xs. P x \<Longrightarrow> \<not> P y \<Longrightarrow> takeWhile P (xs @ y # ys) = xs"
  by (induction xs) auto

lemma dropWhile_run:
  "\<forall>x \<in> set xs. P x \<Longrightarrow> \<not> P y \<Longrightarrow> dropWhile P (xs @ y # ys) = y # ys"
  by (induction xs) auto

lemma stripVersion_suffix:
  "stripVersion (b @ '' (Version '' @ string_of_nat n @ '')'') = b"
proof -
  let ?ds = "rev (string_of_nat n)"
  define tl where "tl = ''noisreV('' @ CHR '' '' # rev b"
  have r: "rev (b @ '' (Version '' @ string_of_nat n @ '')'')
      = CHR '')'' # ?ds @ CHR '' '' # tl"
    by (simp add: tl_def)
  have dig: "\<forall>c \<in> set ?ds. isDigit c"
    using string_of_nat_digits[of n] by simp
  have nd: "\<not> isDigit CHR '' ''"
    by (simp add: isDigit_def)
  have tw: "takeWhile isDigit (?ds @ CHR '' '' # tl) = ?ds"
    using dig nd by (rule takeWhile_run)
  have dw: "dropWhile isDigit (?ds @ CHR '' '' # tl) = CHR '' '' # tl"
    using dig nd by (rule dropWhile_run)
  have ne: "?ds \<noteq> []"
    by (simp add: string_of_nat_ne)
  have sp: "spaceAtStart (map rev whiteSpace) (CHR '' '' # rev b) = 1"
    by (simp add: spaceAtStart_def whiteSpace_def startsWith_def)
  have "stripVersion (b @ '' (Version '' @ string_of_nat n @ '')'')
      = (if take 9 (CHR '' '' # tl) \<noteq> rev ''(Version ''
         then b @ '' (Version '' @ string_of_nat n @ '')''
         else (let r2 = drop 9 (CHR '' '' # tl); n' = spaceAtStart (map rev whiteSpace) r2
               in if n' = 0 then b @ '' (Version '' @ string_of_nat n @ '')''
                  else rev (drop n' r2)))"
    unfolding stripVersion_def r using ne by (simp add: tw dw Let_def)
  also have "\<dots> = b"
    by (simp add: tl_def sp Let_def)
  finally show ?thesis .
qed

lemma spaceAtStart_iff:
  assumes "[] \<notin> set ws"
  shows "spaceAtStart ws s \<noteq> 0 \<longleftrightarrow> (\<exists>w \<in> set ws. startsWith s w)"
proof (cases "find (\<lambda>w. startsWith s w) ws")
  case None
  then have "\<not> (\<exists>w \<in> set ws. startsWith s w)"
    by (simp add: find_None_iff)
  moreover from None have "spaceAtStart ws s = 0"
    by (simp add: spaceAtStart_def)
  ultimately show ?thesis by simp
next
  case (Some w)
  then have w: "w \<in> set ws" "startsWith s w"
    by (auto simp: find_Some_iff)
  with assms have "w \<noteq> []" by auto
  moreover from Some have "spaceAtStart ws s = length w"
    by (simp add: spaceAtStart_def)
  ultimately show ?thesis using w by auto
qed

lemma dropSpaces_done: "spaceAtStart ws (dropSpaces ws s) = 0"
proof (induction ws s rule: dropSpaces.induct)
  case (1 ws s)
  then show ?case by (subst dropSpaces.simps) simp
qed

lemma dropSpaces_id: "spaceAtStart ws s = 0 \<Longrightarrow> dropSpaces ws s = s"
  by (subst dropSpaces.simps) simp

lemma dropSpaces_suffix: "\<exists>p. s = p @ dropSpaces ws s"
proof (induction ws s rule: dropSpaces.induct)
  case (1 ws s)
  show ?case
  proof (cases "spaceAtStart ws s = 0")
    case True
    then show ?thesis by (simp add: dropSpaces_id)
  next
    case False
    from 1[OF False] obtain p where p: "drop (spaceAtStart ws s) s = p @ dropSpaces ws (drop (spaceAtStart ws s) s)"
      by blast
    have e: "dropSpaces ws s = dropSpaces ws (drop (spaceAtStart ws s) s)"
      using False by (subst dropSpaces.simps) simp
    have "s = take (spaceAtStart ws s) s @ drop (spaceAtStart ws s) s" by simp
    also have "\<dots> = (take (spaceAtStart ws s) s @ p) @ dropSpaces ws s"
      using p by (simp add: e)
    finally show ?thesis by blast
  qed
qed

lemma startsWith_appendI: "startsWith x w \<Longrightarrow> startsWith (x @ y) w"
proof -
  assume a: "startsWith x w"
  then have "length (take (length w) x) = length w"
    by (simp add: startsWith_def)
  then have "length w \<le> length x"
    by simp
  with a show ?thesis by (simp add: startsWith_def)
qed

lemma spaceAtStart_prefix:
  assumes "[] \<notin> set ws" "spaceAtStart ws (x @ y) = 0"
  shows "spaceAtStart ws x = 0"
  using assms spaceAtStart_iff[OF assms(1), of x] spaceAtStart_iff[OF assms(1), of "x @ y"]
  by (auto dest: startsWith_appendI)

lemma trim_trim: "trim (trim s) = trim s"
proof -
  define A where "A = dropSpaces whiteSpace s"
  define C where "C = dropSpaces (map rev whiteSpace) (rev A)"
  have t: "trim s = rev C"
    by (simp add: trim_def A_def C_def)
  have n1: "[] \<notin> set whiteSpace"
    by (simp add: whiteSpace_def)
  obtain p where "rev A = p @ C"
    unfolding C_def using dropSpaces_suffix by blast
  then have A: "A = rev C @ rev p"
    by (metis rev_append rev_rev_ident)
  have "spaceAtStart whiteSpace A = 0"
    unfolding A_def by (rule dropSpaces_done)
  then have "spaceAtStart whiteSpace (rev C) = 0"
    unfolding A by (rule spaceAtStart_prefix[OF n1])
  then have 1: "dropSpaces whiteSpace (rev C) = rev C"
    by (rule dropSpaces_id)
  have "spaceAtStart (map rev whiteSpace) C = 0"
    unfolding C_def by (rule dropSpaces_done)
  then have 2: "dropSpaces (map rev whiteSpace) C = C"
    by (rule dropSpaces_id)
  show ?thesis
    by (simp add: t) (simp add: trim_def 1 2)
qed

lemma baseNameOf_versioned:
  "baseNameOf (trim x @ '' (Version '' @ string_of_nat n @ '')'') = trim x"
  using stripVersion_suffix[of "trim x" n] by (simp add: baseNameOf_def trim_trim)

lemma example_saves:
  "map sp_name (keywordLibrary (snd (handleSaveSubProject exampleEnv exampleThird)))
     = [''Bedding Keywords'', ''Bedding Keywords (Version 2)'', ''Bedding Keywords (Version 3)'']"
  by code_simp

lemma example_third:
  "subProjectName exampleThird = ''Bedding Keywords''"
  "nameTaken (keywordLibrary exampleThird) ''P'' ''Bedding Keywords''"
  "trim ''Bedding Keywords'' = ''Bedding Keywords''"
  "baseNameOf ''Bedding Keywords'' = ''Bedding Keywords''"
  "length (lineageOf (keywordLibrary exampleThird) ''P'' ''Bedding Keywords'') = 2"
  "string_of_nat 3 = ''3''"
  by code_simp+

text \<open>
  C1 (amended). The name that is stored is computed from the requested name with its
  surrounding white space trimmed: when a saved sub-project under the same parent has
  literally that trimmed name (it is then in the lineage of the name), the stored name is
  \<open>{baseName} (Version {lineageSize + 1})\<close>, with the lineage the sub-projects under
  the parent whose base name is the base name of the trimmed name; otherwise the trimmed
  name is stored. The stored name has the base name of the requested one, so it joins the
  same lineage.
\<close>

theorem version_naming:
  "versionedName lib p name =
     (if nameTaken lib p (trim name)
      then baseNameOf (trim name) @ '' (Version ''
             @ string_of_nat (length (lineageOf lib p (baseNameOf (trim name))) + 1) @ '')''
      else trim name)
   \<and> nameTaken lib p (trim name)
       = (\<exists>sp \<in> set lib. sp_parentProjectId sp = p \<and> sp_name sp = trim name)
   \<and> set (lineageOf lib p (baseNameOf (trim name)))
       = {sp \<in> set lib. sp_parentProjectId sp = p
                        \<and> baseNameOf (sp_name sp) = baseNameOf (trim name)}
   \<and> baseNameOf (versionedName lib p name) = baseNameOf (trim name)"
proof -
  have a: "versionedName lib p name =
     (if nameTaken lib p (trim name)
      then baseNameOf (trim name) @ '' (Version ''
             @ string_of_nat (length (lineageOf lib p (baseNameOf (trim name))) + 1) @ '')''
      else trim name)"
    by (simp add: versionedName_def nameTaken_def Let_def)
  have b: "nameTaken lib p (trim name)
       = (\<exists>sp \<in> set lib. sp_parentProjectId sp = p \<and> sp_name sp = trim name)"
    by (auto simp: nameTaken_def lineageOf_def list_ex_iff)
  have c: "set (lineageOf lib p (baseNameOf (trim name)))
       = {sp \<in> set lib. sp_parentProjectId sp = p
                        \<and> baseNameOf (sp_name sp) = baseNameOf (trim name)}"
    by (auto simp: lineageOf_def)
  have "baseNameOf (trim name) = trim (stripVersion (trim name))"
    by (simp add: baseNameOf_def)
  then have d: "baseNameOf (versionedName lib p name) = baseNameOf (trim name)"
    using baseNameOf_versioned[of "stripVersion (trim name)"] by (simp add: a)
  from a b c d show ?thesis by blast
qed

theorem version_naming_witness:
  "map sp_name (keywordLibrary (snd (handleSaveSubProject exampleEnv exampleThird)))
     = [''Bedding Keywords'', ''Bedding Keywords (Version 2)'', ''Bedding Keywords (Version 3)'']
   \<and> nameTaken (keywordLibrary exampleThird) ''P'' ''Bedding Keywords''
   \<and> versionedName (keywordLibrary exampleThird) ''P'' (subProjectName exampleThird)
       = ''Bedding Keywords (Version 3)''"
  using version_naming[of "keywordLibrary exampleThird" "''P''" "''Bedding Keywords''"]
    example_saves example_third
  by simp

text \<open>
  C1 as stated fails for a requested name with a trailing space: no saved sub-project
  has this name, and the name stored is not the requested one.
\<close>

theorem version_naming_counterexample:
  "\<not> nameTaken [] ''P'' ''Bedding Keywords ''
   \<and> versionedName [] ''P'' ''Bedding Keywords '' \<noteq> ''Bedding Keywords ''"
  by code_simp

section \<open>Validation on save\<close>





section \<open>Finding a node of a well-formed tree\<close>

lemma find_lsi_None: "x \<notin> lsi_id ` set xs \<Longrightarrow> find_lsi x xs = None"
  by (induction xs) auto

lemma find_l2_None: "x \<notin> (\<Union>l2 \<in> set cs. idsLevel2 l2) \<Longrightarrow> find_l2 x cs = None"
  by (induction cs) (auto simp: idsLevel2_def find_lsi_None)

lemma find_lsi_skip:
  "k \<le> length xs \<Longrightarrow> (\<forall>m<k. lsi_id (xs ! m) \<noteq> x) \<Longrightarrow> find_lsi x xs = find_lsi x (drop k xs)"
proof (induction xs arbitrary: k)
  case Nil
  then show ?case by simp
next
  case (Cons a xs)
  show ?case
  proof (cases k)
    case 0
    then show ?thesis by simp
  next
    case (Suc k')
    with Cons.prems have "lsi_id a \<noteq> x" and "\<forall>m<k'. lsi_id (xs ! m) \<noteq> x" and "k' \<le> length xs"
      by auto
    with Cons.IH[of k'] Suc show ?thesis by simp
  qed
qed

lemma find_l2_skip:
  "j \<le> length cs \<Longrightarrow> (\<forall>m<j. x \<notin> idsLevel2 (cs ! m)) \<Longrightarrow> find_l2 x cs = find_l2 x (drop j cs)"
proof (induction cs arbitrary: j)
  case Nil
  then show ?case by simp
next
  case (Cons a cs)
  show ?case
  proof (cases j)
    case 0
    then show ?thesis by simp
  next
    case (Suc j')
    with Cons.prems have a: "x \<notin> idsLevel2 a" and r: "\<forall>m<j'. x \<notin> idsLevel2 (cs ! m)"
      and l: "j' \<le> length cs"
      by auto
    from a have "l2_id a \<noteq> x" "find_lsi x (lsi a) = None"
      by (auto simp: idsLevel2_def find_lsi_None)
    with Cons.IH[OF l r] Suc show ?thesis by simp
  qed
qed

lemma findNodeById_skip:
  "i \<le> length t \<Longrightarrow> (\<forall>m<i. x \<notin> idsLevel1 (t ! m)) \<Longrightarrow> findNodeById t x = findNodeById (drop i t) x"
proof (induction t arbitrary: i)
  case Nil
  then show ?case by simp
next
  case (Cons a t)
  show ?case
  proof (cases i)
    case 0
    then show ?thesis by simp
  next
    case (Suc i')
    with Cons.prems have a: "x \<notin> idsLevel1 a" and r: "\<forall>m<i'. x \<notin> idsLevel1 (t ! m)"
      and l: "i' \<le> length t"
      by auto
    from a have "l1_id a \<noteq> x" "find_l2 x (children a) = None"
      by (auto simp: idsLevel1_def find_l2_None)
    with Cons.IH[OF l r] Suc show ?thesis by simp
  qed
qed

text \<open>The identifiers below a node of a well-formed tree, by position.\<close>

lemma idsLevel2_wf:
  assumes "wf_tree t" "i < length t" "j < length (children (t ! i))"
  shows "idsLevel2 (children (t ! i) ! j)
         = insert (l2id i j) (lsiid i j ` {..<length (lsi (children (t ! i) ! j))})"
proof -
  let ?xs = "lsi (children (t ! i) ! j)"
  have "lsi_id ` set ?xs = lsiid i j ` {..<length ?xs}"
  proof (intro set_eqI iffI)
    fix x assume "x \<in> lsi_id ` set ?xs"
    then obtain l where l: "l \<in> set ?xs" "x = lsi_id l" by blast
    then obtain k where k: "k < length ?xs" "l = ?xs ! k"
      by (metis in_set_conv_nth)
    with l wf_tree_lsi[OF assms k(1)] have "x = lsiid i j k" by simp
    with k(1) show "x \<in> lsiid i j ` {..<length ?xs}" by blast
  next
    fix x assume "x \<in> lsiid i j ` {..<length ?xs}"
    then obtain k where k: "k < length ?xs" "x = lsiid i j k" by blast
    with wf_tree_lsi[OF assms k(1)] have "x = lsi_id (?xs ! k)" by simp
    moreover have "?xs ! k \<in> set ?xs" using k(1) by (rule nth_mem)
    ultimately show "x \<in> lsi_id ` set ?xs" by blast
  qed
  then show ?thesis
    by (simp add: idsLevel2_def wf_tree_l2[OF assms])
qed

lemma idsLevel1_wf:
  assumes "wf_tree t" "i < length t"
  shows "idsLevel1 (t ! i)
         = insert (l1id i) (\<Union>j<length (children (t ! i)). idsLevel2 (children (t ! i) ! j))"
proof -
  let ?cs = "children (t ! i)"
  have "(\<Union>l2 \<in> set ?cs. idsLevel2 l2) = (\<Union>j<length ?cs. idsLevel2 (?cs ! j))"
  proof (intro set_eqI iffI)
    fix x assume "x \<in> (\<Union>l2 \<in> set ?cs. idsLevel2 l2)"
    then obtain l2 where l: "l2 \<in> set ?cs" "x \<in> idsLevel2 l2" by blast
    then obtain j where "j < length ?cs" "l2 = ?cs ! j"
      by (metis in_set_conv_nth)
    with l show "x \<in> (\<Union>j<length ?cs. idsLevel2 (?cs ! j))" by blast
  next
    fix x assume "x \<in> (\<Union>j<length ?cs. idsLevel2 (?cs ! j))"
    then obtain j where j: "j < length ?cs" "x \<in> idsLevel2 (?cs ! j)" by blast
    moreover have "?cs ! j \<in> set ?cs" using j(1) by (rule nth_mem)
    ultimately show "x \<in> (\<Union>l2 \<in> set ?cs. idsLevel2 l2)" by blast
  qed
  then show ?thesis
    by (simp add: idsLevel1_def wf_tree_l1[OF assms])
qed

lemma in_idsLevel2_wf:
  assumes "wf_tree t" "i < length t" "j < length (children (t ! i))"
  shows "l1id a \<notin> idsLevel2 (children (t ! i) ! j)"
    and "l2id a b \<in> idsLevel2 (children (t ! i) ! j) \<longleftrightarrow> a = i \<and> b = j"
    and "lsiid a b c \<in> idsLevel2 (children (t ! i) ! j)
         \<longleftrightarrow> a = i \<and> b = j \<and> c < length (lsi (children (t ! i) ! j))"
  by (auto simp: idsLevel2_wf[OF assms])

lemma in_idsLevel1_wf:
  assumes "wf_tree t" "i < length t"
  shows "l1id a \<in> idsLevel1 (t ! i) \<longleftrightarrow> a = i"
    and "l2id a b \<in> idsLevel1 (t ! i) \<longleftrightarrow> a = i \<and> b < length (children (t ! i))"
    and "lsiid a b c \<in> idsLevel1 (t ! i)
         \<longleftrightarrow> a = i \<and> b < length (children (t ! i)) \<and> c < length (lsi (children (t ! i) ! b))"
  by (auto simp: idsLevel1_wf[OF assms] in_idsLevel2_wf[OF assms])

lemma findNodeById_l1:
  assumes "wf_tree t" "i < length t"
  shows "findNodeById t (l1id i) = Some (L1 (t ! i))"
proof -
  have "\<forall>m<i. l1id i \<notin> idsLevel1 (t ! m)"
    using assms by (auto simp: in_idsLevel1_wf)
  with findNodeById_skip[of i t "l1id i"] assms
  have "findNodeById t (l1id i) = findNodeById (drop i t) (l1id i)" by simp
  also have "drop i t = t ! i # drop (Suc i) t"
    using assms by (simp add: Cons_nth_drop_Suc)
  finally show ?thesis
    by (simp add: wf_tree_l1[OF assms])
qed

lemma find_l2_l2:
  assumes "wf_tree t" "i < length t" "j < length (children (t ! i))"
  shows "find_l2 (l2id i j) (children (t ! i)) = Some (L2 (children (t ! i) ! j))"
proof -
  let ?cs = "children (t ! i)"
  have "\<forall>m<j. l2id i j \<notin> idsLevel2 (?cs ! m)"
    using assms by (auto simp: in_idsLevel2_wf)
  with find_l2_skip[of j ?cs "l2id i j"] assms
  have "find_l2 (l2id i j) ?cs = find_l2 (l2id i j) (drop j ?cs)" by simp
  also have "drop j ?cs = ?cs ! j # drop (Suc j) ?cs"
    using assms by (simp add: Cons_nth_drop_Suc)
  finally show ?thesis
    by (simp add: wf_tree_l2[OF assms])
qed

lemma find_lsi_lsi:
  assumes "wf_tree t" "i < length t" "j < length (children (t ! i))"
    "k < length (lsi (children (t ! i) ! j))"
  shows "find_lsi (lsiid i j k) (lsi (children (t ! i) ! j))
         = Some (Lsi (lsi (children (t ! i) ! j) ! k))"
proof -
  let ?xs = "lsi (children (t ! i) ! j)"
  have "\<forall>m<k. lsi_id (?xs ! m) \<noteq> lsiid i j k"
    using assms by (auto simp: wf_tree_lsi)
  with find_lsi_skip[of k ?xs "lsiid i j k"] assms
  have "find_lsi (lsiid i j k) ?xs = find_lsi (lsiid i j k) (drop k ?xs)" by simp
  also have "drop k ?xs = ?xs ! k # drop (Suc k) ?xs"
    using assms by (simp add: Cons_nth_drop_Suc)
  finally show ?thesis
    by (simp add: wf_tree_lsi[OF assms])
qed

lemma find_l2_lsi:
  assumes "wf_tree t" "i < length t" "j < length (children (t ! i))"
    "k < length (lsi (children (t ! i) ! j))"
  shows "find_l2 (lsiid i j k) (children (t ! i)) = Some (Lsi (lsi (children (t ! i) ! j) ! k))"
proof -
  let ?cs = "children (t ! i)"
  have "\<forall>m<j. lsiid i j k \<notin> idsLevel2 (?cs ! m)"
    using assms by (auto simp: in_idsLevel2_wf)
  with find_l2_skip[of j ?cs "lsiid i j k"] assms
  have "find_l2 (lsiid i j k) ?cs = find_l2 (lsiid i j k) (drop j ?cs)" by simp
  also have "drop j ?cs = ?cs ! j # drop (Suc j) ?cs"
    using assms by (simp add: Cons_nth_drop_Suc)
  finally show ?thesis
    by (simp add: wf_tree_l2[OF assms(1-3)] find_lsi_lsi[OF assms])
qed

lemma findNodeById_below:
  assumes "wf_tree t" "i < length t" "x \<noteq> l1id i" "\<forall>m<i. x \<notin> idsLevel1 (t ! m)"
    "find_l2 x (children (t ! i)) = Some n"
  shows "findNodeById t x = Some n"
proof -
  from findNodeById_skip[of i t x] assms
  have "findNodeById t x = findNodeById (drop i t) x" by simp
  also have "drop i t = t ! i # drop (Suc i) t"
    using assms by (simp add: Cons_nth_drop_Suc)
  finally show ?thesis
    using assms by (simp add: wf_tree_l1[OF assms(1,2)])
qed

lemma findNodeById_l2:
  assumes "wf_tree t" "i < length t" "j < length (children (t ! i))"
  shows "findNodeById t (l2id i j) = Some (L2 (children (t ! i) ! j))"
  using assms
  by (intro findNodeById_below[of t i] find_l2_l2) (auto simp: in_idsLevel1_wf)

lemma findNodeById_lsi:
  assumes "wf_tree t" "i < length t" "j < length (children (t ! i))"
    "k < length (lsi (children (t ! i) ! j))"
  shows "findNodeById t (lsiid i j k) = Some (Lsi (lsi (children (t ! i) ! j) ! k))"
  using assms
  by (intro findNodeById_below[of t i] find_l2_lsi) (auto simp: in_idsLevel1_wf)

section \<open>A toggle on a well-formed tree\<close>

lemma forEachM_Some:
  "(\<And>x s. x \<in> set xs \<Longrightarrow> f x s = Some (g x s)) \<Longrightarrow> forEachM f xs s = Some (fold g xs s)"
  by (induction xs arbitrary: s) auto

lemma forEachM_mono:
  "(\<And>x s r. x \<in> set xs \<Longrightarrow> f x s = Some r \<Longrightarrow> g x s = Some r)
   \<Longrightarrow> forEachM f xs s = Some r \<Longrightarrow> forEachM g xs s = Some r"
proof (induction xs arbitrary: s)
  case Nil
  then show ?case by simp
next
  case (Cons x xs)
  from Cons.prems(2) obtain s1 where s1: "f x s = Some s1" "forEachM f xs s1 = Some r"
    by (auto split: option.splits)
  from Cons.prems(1)[of x s s1] s1 have "g x s = Some s1" by simp
  moreover have "forEachM g xs s1 = Some r"
    by (rule Cons.IH[OF _ s1(2)]) (auto intro: Cons.prems(1))
  ultimately show ?case by simp
qed

lemma cascadeDown_mono:
  "cascadeDown fuel t x v s = Some r \<Longrightarrow> cascadeDown (Suc fuel) t x v s = Some r"
proof (induction fuel arbitrary: x s r)
  case 0
  then show ?case by simp
next
  case (Suc fuel)
  show ?case
  proof (cases "findNodeById t x")
    case None
    with Suc.prems show ?thesis by simp
  next
    case (Some n)
    show ?thesis
    proof (cases n)
      case (L1 l1)
      with Some Suc.prems
      have "forEachM (\<lambda>child s. cascadeDown fuel t (l2_id child) v
               (AList.update (l2_id child) v s)) (children l1) s = Some r"
        by simp
      then have "forEachM (\<lambda>child s. cascadeDown (Suc fuel) t (l2_id child) v
               (AList.update (l2_id child) v s)) (children l1) s = Some r"
        by (rule forEachM_mono[rotated]) (rule Suc.IH)
      with Some L1 show ?thesis by simp
    next
      case (L2 l2)
      with Some Suc.prems show ?thesis by simp
    next
      case (Lsi l)
      with Some Suc.prems show ?thesis by simp
    qed
  qed
qed

lemma cascadeDown_more:
  "cascadeDown fuel t x v s = Some r \<Longrightarrow> cascadeDown (fuel + n) t x v s = Some r"
  by (induction n) (auto dest: cascadeDown_mono)

lemma cascadeDown_lsi:
  assumes "wf_tree t" "i < length t" "j < length (children (t ! i))"
    "k < length (lsi (children (t ! i) ! j))"
  shows "cascadeDown (Suc fuel) t (lsiid i j k) v s = Some s"
  by (simp add: findNodeById_lsi[OF assms])

lemma cascadeDown_l2:
  assumes "wf_tree t" "i < length t" "j < length (children (t ! i))"
  shows "cascadeDown (Suc fuel) t (l2id i j) v s = Some (markLsi v (children (t ! i) ! j) s)"
  by (simp add: findNodeById_l2[OF assms] markLsi_def)

lemma cascadeDown_l1:
  assumes "wf_tree t" "i < length t"
  shows "cascadeDown (Suc (Suc fuel)) t (l1id i) v s = Some (markChildren v (t ! i) s)"
proof -
  have "cascadeDown (Suc fuel) t (l2_id c) v (AList.update (l2_id c) v s')
      = Some (markLsi v c (AList.update (l2_id c) v s'))"
    if "c \<in> set (children (t ! i))" for c s'
  proof -
    from that obtain j where j: "j < length (children (t ! i))" "c = children (t ! i) ! j"
      by (metis in_set_conv_nth)
    with wf_tree_l2[OF assms j(1)] cascadeDown_l2[OF assms j(1)] show ?thesis by simp
  qed
  then have "forEachM (\<lambda>child s. cascadeDown (Suc fuel) t (l2_id child) v
               (AList.update (l2_id child) v s)) (children (t ! i)) s
      = Some (markChildren v (t ! i) s)"
    unfolding markChildren_def by (rule forEachM_Some)
  then show ?thesis
    using findNodeById_l1[OF assms] by simp
qed

lemma l1id_ne [simp]: "l1id i \<noteq> []" "l2id i j \<noteq> []"
  by (simp_all add: l1id_def l2id_def)

lemma cascadeUp_l1: "cascadeUp t (l1id i) s = s"
  by (subst cascadeUp.simps) simp

lemma cascadeUp_step:
  assumes "getParentId x = Some p" "p \<noteq> []" "findNodeById t p = Some n"
    "n = L1 a \<or> n = L2 b"
  shows "cascadeUp t x s = cascadeUp t p (recompute p (map node_id (getChildren n)) s)"
proof -
  have "list_all (\<lambda>c. selected s (node_id c)) (getChildren n)
      = list_all (selected s) (map node_id (getChildren n))"
    by (simp add: list_all_iff)
  then show ?thesis
    using assms by (subst cascadeUp.simps) (auto simp: Let_def recompute_def)
qed

lemma cascadeUp_l2:
  assumes "wf_tree t" "i < length t"
  shows "cascadeUp t (l2id i j) s = recompute (l1id i) (map l2_id (children (t ! i))) s"
  using cascadeUp_step[of "l2id i j" "l1id i" t "L1 (t ! i)" "t ! i" undefined s]
  by (simp add: findNodeById_l1[OF assms] cascadeUp_l1 comp_def)

lemma cascadeUp_lsi:
  assumes "wf_tree t" "i < length t" "j < length (children (t ! i))"
  shows "cascadeUp t (lsiid i j k) s
         = recompute (l1id i) (map l2_id (children (t ! i)))
             (recompute (l2id i j) (map lsi_id (lsi (children (t ! i) ! j))) s)"
  using cascadeUp_step[of "lsiid i j k" "l2id i j" t "L2 (children (t ! i) ! j)" undefined
      "children (t ! i) ! j" s]
  by (simp add: findNodeById_l2[OF assms] cascadeUp_l2[OF assms(1,2)] comp_def)

lemma toggle_l1:
  assumes "wf_tree t" "i < length t" "2 \<le> fuel"
  shows "handleSelectionChange fuel t (l1id i) v s
         = Some (onlyTrue (markChildren v (t ! i) (AList.update (l1id i) v s)))"
proof -
  from assms(3) obtain f where f: "fuel = Suc (Suc f)"
    by (metis Suc_le_D numeral_2_eq_2 Suc_le_mono)
  show ?thesis
    unfolding handleSelectionChange_def f cascadeDown_l1[OF assms(1,2)]
    by (simp add: cascadeUp_l1 onlyTrue_def)
qed

lemma toggle_l2:
  assumes "wf_tree t" "i < length t" "j < length (children (t ! i))" "1 \<le> fuel"
  shows "handleSelectionChange fuel t (l2id i j) v s
         = Some (onlyTrue (recompute (l1id i) (map l2_id (children (t ! i)))
                   (markLsi v (children (t ! i) ! j) (AList.update (l2id i j) v s))))"
proof -
  from assms(4) obtain f where f: "fuel = Suc f"
    by (metis Suc_le_D One_nat_def)
  show ?thesis
    unfolding handleSelectionChange_def f cascadeDown_l2[OF assms(1-3)]
    by (simp add: cascadeUp_l2[OF assms(1,2)] onlyTrue_def)
qed

lemma toggle_lsi:
  assumes "wf_tree t" "i < length t" "j < length (children (t ! i))"
    "k < length (lsi (children (t ! i) ! j))" "1 \<le> fuel"
  shows "handleSelectionChange fuel t (lsiid i j k) v s
         = Some (onlyTrue (recompute (l1id i) (map l2_id (children (t ! i)))
                   (recompute (l2id i j) (map lsi_id (lsi (children (t ! i) ! j)))
                      (AList.update (lsiid i j k) v s))))"
proof -
  from assms(5) obtain f where f: "fuel = Suc f"
    by (metis Suc_le_D One_nat_def)
  show ?thesis
    unfolding handleSelectionChange_def f cascadeDown_lsi[OF assms(1-4)]
    by (simp add: cascadeUp_lsi[OF assms(1-3)] onlyTrue_def)
qed

lemma handleSelectionChange_more:
  assumes "handleSelectionChange fuel t x v s = Some r"
  shows "handleSelectionChange (fuel + n) t x v s = Some r"
proof -
  from assms obtain s1 where s1: "cascadeDown fuel t x v (AList.update x v s) = Some s1"
    "r = filter (\<lambda>(k, v). v) (cascadeUp t x s1)"
    by (auto simp: handleSelectionChange_def split: option.splits)
  from cascadeDown_more[OF s1(1), of n] s1(2) show ?thesis
    by (simp add: handleSelectionChange_def)
qed

section \<open>The selection after a toggle\<close>

lemma selected_update [simp]:
  "selected (AList.update k v s) k' = (if k' = k then v else selected s k')"
  by (simp add: selected_def update_conv')

lemma selected_delete [simp]:
  "selected (AList.delete k s) k' = (k' \<noteq> k \<and> selected s k')"
  by (auto simp: selected_def delete_conv')

lemma selected_fold_update:
  "selected (fold (\<lambda>l s. AList.update (f l) v s) xs s) k
     = (if k \<in> f ` set xs then v else selected s k)"
  by (induction xs arbitrary: s) auto

lemma distinct_fold_update:
  "distinct (map fst s) \<Longrightarrow> distinct (map fst (fold (\<lambda>l s. AList.update (f l) v s) xs s))"
  by (induction xs arbitrary: s) (auto simp: distinct_update)

lemma selected_markLsi [simp]:
  "selected (markLsi v l2 s) k = (if k \<in> lsi_id ` set (lsi l2) then v else selected s k)"
  by (simp add: markLsi_def selected_fold_update)

lemma distinct_markLsi: "distinct (map fst s) \<Longrightarrow> distinct (map fst (markLsi v l2 s))"
  by (simp add: markLsi_def distinct_fold_update)

lemma selected_markChildren_aux:
  "selected (fold (\<lambda>c s. markLsi v c (AList.update (l2_id c) v s)) cs s) k
     = (if k \<in> (\<Union>c \<in> set cs. idsLevel2 c) then v else selected s k)"
  by (induction cs arbitrary: s) (auto simp: idsLevel2_def)

lemma selected_markChildren [simp]:
  "selected (markChildren v l1 s) k
     = (if k \<in> (\<Union>c \<in> set (children l1). idsLevel2 c) then v else selected s k)"
  by (simp add: markChildren_def selected_markChildren_aux)

lemma distinct_markChildren_aux:
  "distinct (map fst s)
   \<Longrightarrow> distinct (map fst (fold (\<lambda>c s. markLsi v c (AList.update (l2_id c) v s)) cs s))"
  by (induction cs arbitrary: s) (auto simp: distinct_update distinct_markLsi)

lemma distinct_markChildren:
  "distinct (map fst s) \<Longrightarrow> distinct (map fst (markChildren v l1 s))"
  by (simp add: markChildren_def distinct_markChildren_aux)

lemma selected_recompute [simp]:
  "selected (recompute p ks s) k = (if k = p then list_all (selected s) ks else selected s k)"
  by (auto simp: recompute_def)

lemma distinct_recompute:
  "distinct (map fst s) \<Longrightarrow> distinct (map fst (recompute p ks s))"
  by (simp add: recompute_def distinct_update distinct_delete)

lemma distinct_onlyTrue: "distinct (map fst s) \<Longrightarrow> distinct (map fst (onlyTrue s))"
  by (simp add: onlyTrue_def distinct_map_filter)

lemma onlyTrue_values: "(k, b) \<in> set (onlyTrue s) \<Longrightarrow> b"
  by (auto simp: onlyTrue_def)

lemma keys_onlyTrue:
  "distinct (map fst s) \<Longrightarrow> (k \<in> fst ` set (onlyTrue s)) = selected s k"
  by (auto simp: onlyTrue_def selected_def image_iff)

lemma selected_onlyTrue [simp]:
  "distinct (map fst s) \<Longrightarrow> selected (onlyTrue s) k = selected s k"
  using distinct_onlyTrue[of s] by (auto simp: selected_def onlyTrue_def)

lemma in_l2_ids:
  assumes "wf_tree t" "i < length t"
  shows "list_all P (map l2_id (children (t ! i))) = (\<forall>b<length (children (t ! i)). P (l2id i b))"
  using wf_tree_l2[OF assms] by (simp add: list_all_length)

lemma in_lsi_ids:
  assumes "wf_tree t" "i < length t" "j < length (children (t ! i))"
  shows "list_all P (map lsi_id (lsi (children (t ! i) ! j)))
         = (\<forall>c<length (lsi (children (t ! i) ! j)). P (lsiid i j c))"
  using wf_tree_lsi[OF assms] by (simp add: list_all_length)

lemma Union_idsLevel2_nth:
  "(\<Union>c \<in> set cs. idsLevel2 c) = (\<Union>j<length cs. idsLevel2 (cs ! j))"
proof (intro set_eqI iffI)
  fix x assume "x \<in> (\<Union>c \<in> set cs. idsLevel2 c)"
  then obtain c where c: "c \<in> set cs" "x \<in> idsLevel2 c" by blast
  then obtain j where "j < length cs" "c = cs ! j"
    by (metis in_set_conv_nth)
  with c show "x \<in> (\<Union>j<length cs. idsLevel2 (cs ! j))" by blast
next
  fix x assume "x \<in> (\<Union>j<length cs. idsLevel2 (cs ! j))"
  then obtain j where j: "j < length cs" "x \<in> idsLevel2 (cs ! j)" by blast
  moreover have "cs ! j \<in> set cs" using j(1) by (rule nth_mem)
  ultimately show "x \<in> (\<Union>c \<in> set cs. idsLevel2 c)" by blast
qed

lemma in_children_ids_wf:
  assumes "wf_tree t" "i < length t"
  shows "l1id a \<notin> (\<Union>c \<in> set (children (t ! i)). idsLevel2 c)"
    and "l2id a b \<in> (\<Union>c \<in> set (children (t ! i)). idsLevel2 c)
         \<longleftrightarrow> a = i \<and> b < length (children (t ! i))"
    and "lsiid a b c \<in> (\<Union>c \<in> set (children (t ! i)). idsLevel2 c)
         \<longleftrightarrow> a = i \<and> b < length (children (t ! i)) \<and> c < length (lsi (children (t ! i) ! b))"
  by (auto simp: Union_idsLevel2_nth in_idsLevel2_wf[OF assms])

lemma in_lsi_set_wf:
  assumes "wf_tree t" "i < length t" "j < length (children (t ! i))"
  shows "l1id a \<notin> lsi_id ` set (lsi (children (t ! i) ! j))"
    and "l2id a b \<notin> lsi_id ` set (lsi (children (t ! i) ! j))"
    and "lsiid a b c \<in> lsi_id ` set (lsi (children (t ! i) ! j))
         \<longleftrightarrow> a = i \<and> b = j \<and> c < length (lsi (children (t ! i) ! j))"
proof -
  let ?xs = "lsi (children (t ! i) ! j)"
  have e: "x \<in> lsi_id ` set ?xs \<longleftrightarrow> (\<exists>k<length ?xs. x = lsiid i j k)" for x
  proof
    assume "x \<in> lsi_id ` set ?xs"
    then obtain l where l: "l \<in> set ?xs" "x = lsi_id l" by blast
    then obtain k where k: "k < length ?xs" "l = ?xs ! k"
      by (metis in_set_conv_nth)
    with l wf_tree_lsi[OF assms k(1)] show "\<exists>k<length ?xs. x = lsiid i j k" by auto
  next
    assume "\<exists>k<length ?xs. x = lsiid i j k"
    then obtain k where k: "k < length ?xs" "x = lsiid i j k" by blast
    with wf_tree_lsi[OF assms k(1)] have "x = lsi_id (?xs ! k)" by simp
    moreover have "?xs ! k \<in> set ?xs" using k(1) by (rule nth_mem)
    ultimately show "x \<in> lsi_id ` set ?xs" by blast
  qed
  show "l1id a \<notin> lsi_id ` set ?xs" "l2id a b \<notin> lsi_id ` set ?xs"
    "lsiid a b c \<in> lsi_id ` set ?xs \<longleftrightarrow> a = i \<and> b = j \<and> c < length ?xs"
    by (auto simp: e)
qed

text \<open>Every identifier of a well-formed tree is one of the three forms, at a position.\<close>

lemma nodeIds_cases:
  assumes "wf_tree t" "x \<in> set (nodeIds t)"
  obtains (l1) i where "i < length t" "x = l1id i"
  | (l2) i j where "i < length t" "j < length (children (t ! i))" "x = l2id i j"
  | (lsi) i j k where "i < length t" "j < length (children (t ! i))"
      "k < length (lsi (children (t ! i) ! j))" "x = lsiid i j k"
proof -
  from assms(2) obtain l1 where "l1 \<in> set t" "x \<in> idsLevel1 l1"
    by (auto simp: set_nodeIds)
  then obtain i where i: "i < length t" "x \<in> idsLevel1 (t ! i)"
    by (metis in_set_conv_nth)
  from i(2) idsLevel1_wf[OF assms(1) i(1)]
  consider "x = l1id i" | j where "j < length (children (t ! i))" "x \<in> idsLevel2 (children (t ! i) ! j)"
    by blast
  then show ?thesis
  proof cases
    case 1
    show ?thesis using l1[OF i(1) 1] .
  next
    case 2
    from 2(2) idsLevel2_wf[OF assms(1) i(1) 2(1)]
    consider "x = l2id i j" | k where "k < length (lsi (children (t ! i) ! j))" "x = lsiid i j k"
      by blast
    then show ?thesis
    proof cases
      case 1
      show ?thesis using l2[OF i(1) \<open>j < length (children (t ! i))\<close> 1] .
    next
      case 2
      show ?thesis using lsi[OF i(1) \<open>j < length (children (t ! i))\<close> 2] .
    qed
  qed
qed

lemma consistent_index:
  assumes "wf_tree t"
  shows "consistent t s = consistentAt t s"
  unfolding consistent_def consistentAt_def all_set_conv_all_nth
  using wf_tree_l1[OF assms] wf_tree_l2[OF assms] wf_tree_lsi[OF assms]
  by simp

lemma in_children_ids_wf':
  assumes "wf_tree t" "i < length t"
  shows "(\<exists>x \<in> set (children (t ! i)). l1id a \<in> idsLevel2 x) = False"
    and "(\<exists>x \<in> set (children (t ! i)). l2id a b \<in> idsLevel2 x)
         \<longleftrightarrow> a = i \<and> b < length (children (t ! i))"
    and "(\<exists>x \<in> set (children (t ! i)). lsiid a b c \<in> idsLevel2 x)
         \<longleftrightarrow> a = i \<and> b < length (children (t ! i)) \<and> c < length (lsi (children (t ! i) ! b))"
  using in_children_ids_wf[OF assms] by auto

lemma after_l1:
  fixes v :: bool and s :: SelectedKeywords
  assumes "wf_tree t" "i < length t"
  defines "u \<equiv> markChildren v (t ! i) (AList.update (l1id i) v s)"
  shows "selected u (l1id a) = (if a = i then v else selected s (l1id a))"
    and "selected u (l2id a b)
         = (if a = i \<and> b < length (children (t ! i)) then v else selected s (l2id a b))"
    and "selected u (lsiid a b c)
         = (if a = i \<and> b < length (children (t ! i)) \<and> c < length (lsi (children (t ! i) ! b))
            then v else selected s (lsiid a b c))"
  by (simp_all add: u_def in_children_ids_wf'[OF assms(1,2)])

lemma after_l2:
  fixes v :: bool and s :: SelectedKeywords
  assumes "wf_tree t" "i < length t" "j < length (children (t ! i))"
  defines "u \<equiv> recompute (l1id i) (map l2_id (children (t ! i)))
                 (markLsi v (children (t ! i) ! j) (AList.update (l2id i j) v s))"
  shows "selected u (lsiid a b c)
         = (if a = i \<and> b = j \<and> c < length (lsi (children (t ! i) ! j))
            then v else selected s (lsiid a b c))"
    and "selected u (l2id a b) = (if a = i \<and> b = j then v else selected s (l2id a b))"
    and "selected u (l1id a)
         = (if a = i then (\<forall>b<length (children (t ! i)). selected u (l2id i b))
            else selected s (l1id a))"
  by (auto simp: u_def in_lsi_set_wf[OF assms(1-3)] in_l2_ids[OF assms(1,2)])

lemma after_lsi:
  fixes v :: bool and s :: SelectedKeywords and k :: nat
  assumes "wf_tree t" "i < length t" "j < length (children (t ! i))"
  defines "u \<equiv> recompute (l1id i) (map l2_id (children (t ! i)))
                 (recompute (l2id i j) (map lsi_id (lsi (children (t ! i) ! j)))
                    (AList.update (lsiid i j k) v s))"
  shows "selected u (lsiid a b c)
         = (if a = i \<and> b = j \<and> c = k then v else selected s (lsiid a b c))"
    and "selected u (l2id a b)
         = (if a = i \<and> b = j
            then (\<forall>c<length (lsi (children (t ! i) ! j)). selected u (lsiid i j c))
            else selected s (l2id a b))"
    and "selected u (l1id a)
         = (if a = i then (\<forall>b<length (children (t ! i)). selected u (l2id i b))
            else selected s (l1id a))"
  by (auto simp: u_def in_lsi_ids[OF assms(1-3)] in_l2_ids[OF assms(1,2)])

lemma consistentAt_l1:
  fixes v :: bool and s :: SelectedKeywords
  assumes wf: "wf_tree t" and i: "i < length t" and c: "consistentAt t s"
  defines "u \<equiv> markChildren v (t ! i) (AList.update (l1id i) v s)"
  shows "consistentAt t u"
proof -
  note a = after_l1[OF wf i, where v=v and s=s, folded u_def]
  have ne: "xs \<noteq> [] \<Longrightarrow> (\<forall>n<length xs. v) = v" for xs :: "'a list"
    by (cases xs) auto
  have one: "selected u (l1id a) \<longleftrightarrow> (\<forall>b<length (children (t ! a)). selected u (l2id a b))"
    if "a < length t" "children (t ! a) \<noteq> []" for a
  proof (cases "a = i")
    case True
    with that ne[of "children (t ! i)"] show ?thesis by (simp add: a)
  next
    case False
    with that c show ?thesis by (simp add: a consistentAt_def)
  qed
  have two: "selected u (l2id a b)
      \<longleftrightarrow> (\<forall>c<length (lsi (children (t ! a) ! b)). selected u (lsiid a b c))"
    if "a < length t" "b < length (children (t ! a))" "lsi (children (t ! a) ! b) \<noteq> []" for a b
  proof (cases "a = i")
    case True
    with that ne[of "lsi (children (t ! i) ! b)"] show ?thesis by (simp add: a)
  next
    case False
    with that c show ?thesis by (simp add: a consistentAt_def)
  qed
  from one two show ?thesis
    unfolding consistentAt_def by blast
qed

lemma consistentAt_l2:
  fixes v :: bool and s :: SelectedKeywords
  assumes wf: "wf_tree t" and i: "i < length t" and j: "j < length (children (t ! i))"
    and c: "consistentAt t s"
  defines "u \<equiv> recompute (l1id i) (map l2_id (children (t ! i)))
                 (markLsi v (children (t ! i) ! j) (AList.update (l2id i j) v s))"
  shows "consistentAt t u"
proof -
  note a = after_l2[OF wf i j, where v=v and s=s, folded u_def]
  have ne: "xs \<noteq> [] \<Longrightarrow> (\<forall>n<length xs. v) = v" for xs :: "'a list"
    by (cases xs) auto
  have one: "selected u (l1id a) \<longleftrightarrow> (\<forall>b<length (children (t ! a)). selected u (l2id a b))"
    if "a < length t" "children (t ! a) \<noteq> []" for a
  proof (cases "a = i")
    case True
    then show ?thesis by (simp add: a(3))
  next
    case False
    with that c show ?thesis by (simp add: a consistentAt_def)
  qed
  have two: "selected u (l2id a b)
      \<longleftrightarrow> (\<forall>c<length (lsi (children (t ! a) ! b)). selected u (lsiid a b c))"
    if "a < length t" "b < length (children (t ! a))" "lsi (children (t ! a) ! b) \<noteq> []" for a b
  proof (cases "a = i \<and> b = j")
    case True
    with that ne[of "lsi (children (t ! i) ! j)"] show ?thesis by (simp add: a)
  next
    case False
    with that c show ?thesis by (auto simp: a consistentAt_def)
  qed
  from one two show ?thesis
    unfolding consistentAt_def by blast
qed

lemma consistentAt_lsi:
  fixes v :: bool and s :: SelectedKeywords and k :: nat
  assumes wf: "wf_tree t" and i: "i < length t" and j: "j < length (children (t ! i))"
    and c: "consistentAt t s"
  defines "u \<equiv> recompute (l1id i) (map l2_id (children (t ! i)))
                 (recompute (l2id i j) (map lsi_id (lsi (children (t ! i) ! j)))
                    (AList.update (lsiid i j k) v s))"
  shows "consistentAt t u"
proof -
  note a = after_lsi[OF wf i j, where v=v and s=s and k=k, folded u_def]
  have one: "selected u (l1id a) \<longleftrightarrow> (\<forall>b<length (children (t ! a)). selected u (l2id a b))"
    if "a < length t" "children (t ! a) \<noteq> []" for a
  proof (cases "a = i")
    case True
    then show ?thesis by (simp add: a(3))
  next
    case False
    with that c show ?thesis by (simp add: a consistentAt_def)
  qed
  have two: "selected u (l2id a b)
      \<longleftrightarrow> (\<forall>c<length (lsi (children (t ! a) ! b)). selected u (lsiid a b c))"
    if "a < length t" "b < length (children (t ! a))" "lsi (children (t ! a) ! b) \<noteq> []" for a b
  proof (cases "a = i \<and> b = j")
    case True
    then show ?thesis by (simp add: a(2))
  next
    case False
    with that c show ?thesis by (auto simp: a consistentAt_def)
  qed
  from one two show ?thesis
    unfolding consistentAt_def by blast
qed

lemma good_onlyTrue:
  assumes "wf_tree t" "distinct (map fst u)" "consistentAt t u"
  shows "goodSelection t (onlyTrue u)"
proof -
  have "consistentAt t (onlyTrue u)"
    using assms(3) assms(2) by (simp add: consistentAt_def)
  then show ?thesis
    using assms(1,2)
    by (simp add: goodSelection_def distinct_onlyTrue keys_onlyTrue consistent_index)
qed

lemma toggle_good:
  assumes wf: "wf_tree t" and d: "distinct (map fst s)" and c: "consistent t s"
    and n: "nid \<in> set (nodeIds t)" and f: "2 \<le> fuel"
  shows "\<exists>s'. handleSelectionChange fuel t nid v s = Some s' \<and> goodSelection t s'"
proof -
  from c have c': "consistentAt t s"
    by (simp add: consistent_index[OF wf])
  from f have f1: "1 \<le> fuel" by simp
  from wf n show ?thesis
  proof (cases rule: nodeIds_cases)
    case (l1 i)
    show ?thesis
      unfolding l1(2) toggle_l1[OF wf l1(1) f]
      using consistentAt_l1[OF wf l1(1) c', where v=v] d
      by (auto intro!: good_onlyTrue[OF wf] simp: distinct_markChildren distinct_update)
  next
    case (l2 i j)
    show ?thesis
      unfolding l2(3) toggle_l2[OF wf l2(1,2) f1]
      using consistentAt_l2[OF wf l2(1,2) c', where v=v] d
      by (auto intro!: good_onlyTrue[OF wf]
          simp: distinct_recompute distinct_markLsi distinct_update)
  next
    case (lsi i j k)
    show ?thesis
      unfolding lsi(4) toggle_lsi[OF wf lsi(1,2,3) f1]
      using consistentAt_lsi[OF wf lsi(1,2) c', where v=v and k=k] d
      by (auto intro!: good_onlyTrue[OF wf] simp: distinct_recompute distinct_update)
  qed
qed

lemma toggle_good_any_fuel:
  assumes wf: "wf_tree t" and d: "distinct (map fst s)" and c: "consistent t s"
    and n: "nid \<in> set (nodeIds t)" and h: "handleSelectionChange fuel t nid v s = Some s'"
  shows "goodSelection t s'"
proof -
  from handleSelectionChange_more[OF h, of 2]
  have "handleSelectionChange (fuel + 2) t nid v s = Some s'" .
  moreover from toggle_good[OF wf d c n, of "fuel + 2" v]
  obtain s'' where "handleSelectionChange (fuel + 2) t nid v s = Some s''" "goodSelection t s''"
    by auto
  ultimately show ?thesis by simp
qed

lemma reachable_good:
  assumes "wf_tree t" "reachable t s"
  shows "goodSelection t s"
  using assms(2)
proof (induction rule: reachable.induct)
  case reachable_empty
  show ?case
    by (auto simp: goodSelection_def consistent_index[OF assms(1)] consistentAt_def selected_def)
next
  case (reachable_toggle s nid fuel checked s')
  from reachable_toggle.IH have "distinct (map fst s)" "consistent t s"
    by (simp_all add: goodSelection_def)
  then show ?case
    using reachable_toggle.hyps(2,3) by (rule toggle_good_any_fuel[OF assms(1)])
qed

lemma onlyTrue_update:
  "selected u k = v \<Longrightarrow> onlyTrue (AList.update k v u) = onlyTrue u"
proof (induction u)
  case Nil
  then show ?case by (simp add: selected_def onlyTrue_def)
next
  case (Cons a u)
  obtain k' b where a: "a = (k', b)" by (cases a)
  show ?case
  proof (cases "k' = k")
    case True
    with Cons.prems a show ?thesis by (auto simp: selected_def onlyTrue_def)
  next
    case False
    with Cons.prems a have "selected u k = v" by (simp add: selected_def)
    from Cons.IH[OF this] False a show ?thesis by (simp add: onlyTrue_def)
  qed
qed

lemma onlyTrue_delete:
  "distinct (map fst u) \<Longrightarrow> \<not> selected u p \<Longrightarrow> onlyTrue (AList.delete p u) = onlyTrue u"
proof (induction u)
  case Nil
  then show ?case by simp
next
  case (Cons a u)
  obtain k' b where a: "a = (k', b)" by (cases a)
  show ?case
  proof (cases "k' = p")
    case True
    with Cons.prems a have "\<not> b" "p \<notin> fst ` set u"
      by (auto simp: selected_def)
    with True a show ?thesis by (simp add: onlyTrue_def)
  next
    case False
    with Cons.prems a have "\<not> selected u p" "distinct (map fst u)"
      by (simp_all add: selected_def)
    from Cons.IH[OF this(2,1)] False a show ?thesis by (simp add: onlyTrue_def)
  qed
qed

lemma onlyTrue_recompute:
  assumes "distinct (map fst u)" "selected u p = list_all (selected u) ks"
  shows "onlyTrue (recompute p ks u) = onlyTrue u"
  using assms by (auto simp: recompute_def onlyTrue_update onlyTrue_delete)

lemma onlyTrue_fold_update:
  "(\<forall>x \<in> set xs. selected u (f x) = v)
   \<Longrightarrow> onlyTrue (fold (\<lambda>l s. AList.update (f l) v s) xs u) = onlyTrue u"
proof (induction xs arbitrary: u)
  case Nil
  then show ?case by simp
next
  case (Cons x xs)
  have "\<forall>y \<in> set xs. selected (AList.update (f x) v u) (f y) = v"
    using Cons.prems by simp
  from Cons.IH[OF this] Cons.prems show ?case
    by (simp add: onlyTrue_update)
qed

lemma onlyTrue_markLsi:
  "(\<forall>k \<in> lsi_id ` set (lsi l2). selected u k = v) \<Longrightarrow> onlyTrue (markLsi v l2 u) = onlyTrue u"
  unfolding markLsi_def by (rule onlyTrue_fold_update) simp

lemma onlyTrue_markChildren_aux:
  "(\<forall>c \<in> set cs. \<forall>k \<in> idsLevel2 c. selected u k = v)
   \<Longrightarrow> onlyTrue (fold (\<lambda>c s. markLsi v c (AList.update (l2_id c) v s)) cs u) = onlyTrue u"
proof (induction cs arbitrary: u)
  case Nil
  then show ?case by simp
next
  case (Cons c cs)
  let ?u1 = "markLsi v c (AList.update (l2_id c) v u)"
  have s: "selected ?u1 k = selected u k" for k
    using Cons.prems by (auto simp: idsLevel2_def)
  have "onlyTrue ?u1 = onlyTrue (AList.update (l2_id c) v u)"
    by (rule onlyTrue_markLsi) (use Cons.prems in \<open>auto simp: idsLevel2_def\<close>)
  also have "\<dots> = onlyTrue u"
    by (rule onlyTrue_update) (use Cons.prems in \<open>simp add: idsLevel2_def\<close>)
  finally have o: "onlyTrue ?u1 = onlyTrue u" .
  have "\<forall>c' \<in> set cs. \<forall>k \<in> idsLevel2 c'. selected ?u1 k = v"
    using Cons.prems by (simp add: s)
  from Cons.IH[OF this] o show ?case by simp
qed

lemma onlyTrue_markChildren:
  "(\<forall>c \<in> set (children l1). \<forall>k \<in> idsLevel2 c. selected u k = v)
   \<Longrightarrow> onlyTrue (markChildren v l1 u) = onlyTrue u"
  unfolding markChildren_def by (rule onlyTrue_markChildren_aux)

lemma onlyTrue_idem [simp]: "onlyTrue (onlyTrue u) = onlyTrue u"
  by (simp add: onlyTrue_def)

lemma again_l1:
  fixes v :: bool and s :: SelectedKeywords
  assumes wf: "wf_tree t" and i: "i < length t" and d: "distinct (map fst s)"
  defines "s1 \<equiv> onlyTrue (markChildren v (t ! i) (AList.update (l1id i) v s))"
  shows "onlyTrue (markChildren v (t ! i) (AList.update (l1id i) v s1)) = s1"
proof -
  let ?u = "markChildren v (t ! i) (AList.update (l1id i) v s)"
  have du: "distinct (map fst ?u)"
    using d by (simp add: distinct_markChildren distinct_update)
  have sel: "selected s1 k = selected ?u k" for k
    unfolding s1_def using du by simp
  have self: "selected s1 (l1id i) = v"
    by (simp add: sel in_children_ids_wf'[OF wf i])
  have below: "\<forall>c \<in> set (children (t ! i)). \<forall>k \<in> idsLevel2 c.
      selected (AList.update (l1id i) v s1) k = v"
    by (auto simp: sel)
  have "onlyTrue (markChildren v (t ! i) (AList.update (l1id i) v s1))
      = onlyTrue (AList.update (l1id i) v s1)"
    by (rule onlyTrue_markChildren[OF below])
  also have "\<dots> = onlyTrue s1"
    by (rule onlyTrue_update[OF self])
  also have "\<dots> = s1"
    by (simp add: s1_def)
  finally show ?thesis .
qed

lemma again_l2:
  fixes v :: bool and s :: SelectedKeywords
  assumes wf: "wf_tree t" and i: "i < length t" and j: "j < length (children (t ! i))"
    and d: "distinct (map fst s)"
  defines "s1 \<equiv> onlyTrue (recompute (l1id i) (map l2_id (children (t ! i)))
                 (markLsi v (children (t ! i) ! j) (AList.update (l2id i j) v s)))"
  shows "onlyTrue (recompute (l1id i) (map l2_id (children (t ! i)))
           (markLsi v (children (t ! i) ! j) (AList.update (l2id i j) v s1))) = s1"
proof -
  let ?u = "recompute (l1id i) (map l2_id (children (t ! i)))
              (markLsi v (children (t ! i) ! j) (AList.update (l2id i j) v s))"
  let ?w1 = "AList.update (l2id i j) v s1"
  let ?w2 = "markLsi v (children (t ! i) ! j) ?w1"
  note a = after_l2[OF wf i j, where v=v and s=s]
  have du: "distinct (map fst ?u)"
    using d by (simp add: distinct_recompute distinct_markLsi distinct_update)
  have d1: "distinct (map fst s1)"
    unfolding s1_def using du by (rule distinct_onlyTrue)
  have sel: "selected s1 k = selected ?u k" for k
    unfolding s1_def using du by simp
  have self: "selected s1 (l2id i j) = v"
    by (simp add: sel a)
  have terms: "\<forall>k \<in> lsi_id ` set (lsi (children (t ! i) ! j)). selected s1 k = v"
  proof
    fix k assume "k \<in> lsi_id ` set (lsi (children (t ! i) ! j))"
    then obtain l where l: "l \<in> set (lsi (children (t ! i) ! j))" "k = lsi_id l"
      by blast
    then obtain c where c: "c < length (lsi (children (t ! i) ! j))"
      "l = lsi (children (t ! i) ! j) ! c"
      by (metis in_set_conv_nth)
    with l wf_tree_lsi[OF wf i j c(1)] have k: "k = lsiid i j c" by simp
    from a(1)[of i j c] c(1) have "selected ?u (lsiid i j c) = v"
      by (simp only: simp_thms if_True)
    then show "selected s1 k = v" by (simp only: sel k)
  qed
  have s1w1: "selected ?w1 k = selected s1 k" for k
    using self by simp
  have s1w2: "selected ?w2 k = selected s1 k" for k
    using terms s1w1 by auto
  have dw2: "distinct (map fst ?w2)"
    using d1 by (simp add: distinct_markLsi distinct_update)
  have top: "selected ?w2 (l1id i) = list_all (selected ?w2) (map l2_id (children (t ! i)))"
    by (simp add: s1w2[abs_def] in_l2_ids[OF wf i] sel a del: selected_markLsi selected_update)
  have "onlyTrue (recompute (l1id i) (map l2_id (children (t ! i))) ?w2) = onlyTrue ?w2"
    by (rule onlyTrue_recompute[OF dw2 top])
  also have "\<dots> = onlyTrue ?w1"
    by (rule onlyTrue_markLsi) (use terms s1w1 in simp)
  also have "\<dots> = onlyTrue s1"
    by (rule onlyTrue_update[OF self])
  also have "\<dots> = s1"
    by (simp add: s1_def)
  finally show ?thesis .
qed

lemma again_lsi:
  fixes v :: bool and s :: SelectedKeywords and k :: nat
  assumes wf: "wf_tree t" and i: "i < length t" and j: "j < length (children (t ! i))"
    and d: "distinct (map fst s)"
  defines "s1 \<equiv> onlyTrue (recompute (l1id i) (map l2_id (children (t ! i)))
                 (recompute (l2id i j) (map lsi_id (lsi (children (t ! i) ! j)))
                    (AList.update (lsiid i j k) v s)))"
  shows "onlyTrue (recompute (l1id i) (map l2_id (children (t ! i)))
           (recompute (l2id i j) (map lsi_id (lsi (children (t ! i) ! j)))
              (AList.update (lsiid i j k) v s1))) = s1"
proof -
  let ?u = "recompute (l1id i) (map l2_id (children (t ! i)))
              (recompute (l2id i j) (map lsi_id (lsi (children (t ! i) ! j)))
                 (AList.update (lsiid i j k) v s))"
  let ?w1 = "AList.update (lsiid i j k) v s1"
  let ?w2 = "recompute (l2id i j) (map lsi_id (lsi (children (t ! i) ! j))) ?w1"
  note a = after_lsi[OF wf i j, where v=v and s=s and k=k]
  have du: "distinct (map fst ?u)"
    using d by (simp add: distinct_recompute distinct_update)
  have d1: "distinct (map fst s1)"
    unfolding s1_def using du by (rule distinct_onlyTrue)
  have sel: "selected s1 x = selected ?u x" for x
    unfolding s1_def using du by simp
  have self: "selected s1 (lsiid i j k) = v"
    by (simp add: sel a)
  have s1w1: "selected ?w1 x = selected s1 x" for x
    using self by simp
  have dw1: "distinct (map fst ?w1)"
    using d1 by (simp add: distinct_update)
  have mid: "selected ?w1 (l2id i j)
      = list_all (selected ?w1) (map lsi_id (lsi (children (t ! i) ! j)))"
    by (simp add: s1w1[abs_def] in_lsi_ids[OF wf i j] sel a del: selected_update)
  have o2: "onlyTrue ?w2 = onlyTrue ?w1"
    by (rule onlyTrue_recompute[OF dw1 mid])
  have s1w2: "selected ?w2 x = selected s1 x" for x
    using mid s1w1 by (auto simp del: selected_update)
  have dw2: "distinct (map fst ?w2)"
    using dw1 by (rule distinct_recompute)
  have top: "selected ?w2 (l1id i) = list_all (selected ?w2) (map l2_id (children (t ! i)))"
    by (simp add: s1w2[abs_def] in_l2_ids[OF wf i] sel a
        del: selected_recompute selected_update)
  have "onlyTrue (recompute (l1id i) (map l2_id (children (t ! i))) ?w2) = onlyTrue ?w2"
    by (rule onlyTrue_recompute[OF dw2 top])
  also have "\<dots> = onlyTrue ?w1"
    by (rule o2)
  also have "\<dots> = onlyTrue s1"
    by (rule onlyTrue_update[OF self])
  also have "\<dots> = s1"
    by (simp add: s1_def)
  finally show ?thesis .
qed

lemma example_toggles:
  "handleSelectionChange 2 exampleTree ''l1-0'' True [] = Some exampleAll"
  "handleSelectionChange 2 exampleTree ''l1-0'' False exampleAll = Some []"
  "handleSelectionChange 2 exampleTree ''l1-0-l2-1-lsi-0'' True [] = Some exampleOne"
  "handleSelectionChange 2 exampleTree ''l1-0-l2-1-lsi-0'' True exampleOne = Some exampleOne"
  by code_simp+

lemma example_ids:
  "''l1-0'' \<in> set (nodeIds exampleTree)"
  "''l1-0-l2-1-lsi-0'' \<in> set (nodeIds exampleTree)"
  by code_simp+

section \<open>The cascades\<close>

text \<open>
  C4. On a tree with the builder's identifiers, a toggle of a Level1 node returns; with
  \<open>true\<close> the node, each of its Level2 children and each of their terms is selected in
  the result, with \<open>false\<close> none of their identifiers is a key of the result.
\<close>

theorem toggle_level1_cascades_down:
  assumes "wf_tree t" "l1 \<in> set t" "distinct (map fst s)" "2 \<le> fuel"
  shows "\<exists>s'. handleSelectionChange fuel t (l1_id l1) v s = Some s'
     \<and> (v \<longrightarrow> selected s' (l1_id l1)
           \<and> (\<forall>c \<in> set (children l1). selected s' (l2_id c)
                 \<and> (\<forall>l \<in> set (lsi c). selected s' (lsi_id l))))
     \<and> (\<not> v \<longrightarrow> l1_id l1 \<notin> fst ` set s'
           \<and> (\<forall>c \<in> set (children l1). l2_id c \<notin> fst ` set s'
                 \<and> (\<forall>l \<in> set (lsi c). lsi_id l \<notin> fst ` set s')))"
proof -
  from assms(2) obtain i where i: "i < length t" "l1 = t ! i"
    by (metis in_set_conv_nth)
  let ?u = "markChildren v l1 (AList.update (l1_id l1) v s)"
  have id: "l1_id l1 = l1id i"
    using wf_tree_l1[OF assms(1) i(1)] i(2) by simp
  have h: "handleSelectionChange fuel t (l1_id l1) v s = Some (onlyTrue ?u)"
    using toggle_l1[OF assms(1) i(1) assms(4), of v s] i(2) id by simp
  have d: "distinct (map fst ?u)"
    using assms(3) by (simp add: distinct_markChildren distinct_update)
  have u: "selected ?u k = v" if "k \<in> idsLevel1 l1" for k
    using that by (auto simp: idsLevel1_def)
  have sel: "selected (onlyTrue ?u) k = v" if "k \<in> idsLevel1 l1" for k
    using u[OF that] d by simp
  have key: "(k \<in> fst ` set (onlyTrue ?u)) = v" if "k \<in> idsLevel1 l1" for k
    using u[OF that] d by (simp add: keys_onlyTrue)
  have mem: "l1_id l1 \<in> idsLevel1 l1"
    "\<And>c. c \<in> set (children l1) \<Longrightarrow> l2_id c \<in> idsLevel1 l1"
    "\<And>c l. c \<in> set (children l1) \<Longrightarrow> l \<in> set (lsi c) \<Longrightarrow> lsi_id l \<in> idsLevel1 l1"
    by (auto simp: idsLevel1_def idsLevel2_def)
  show ?thesis
  proof (cases v)
    case True
    with h sel mem show ?thesis by simp
  next
    case False
    with h key mem show ?thesis by simp
  qed
qed

theorem toggle_level1_cascades_down_witness:
  "handleSelectionChange 2 exampleTree ''l1-0'' True [] = Some exampleAll
   \<and> selected exampleAll ''l1-0'' \<and> selected exampleAll ''l1-0-l2-1''
   \<and> selected exampleAll ''l1-0-l2-0-lsi-2''
   \<and> handleSelectionChange 2 exampleTree ''l1-0'' False exampleAll = Some []"
proof -
  have m: "exampleTree ! 0 \<in> set exampleTree" "l1_id (exampleTree ! 0) = ''l1-0''"
    by (simp_all add: exampleTree_def)
  from toggle_level1_cascades_down[OF wf_exampleTree m(1), of "[]" 2 True]
  obtain s' where "handleSelectionChange 2 exampleTree ''l1-0'' True [] = Some s'"
    "selected s' ''l1-0''"
    by (auto simp: m(2))
  then have "selected exampleAll ''l1-0''"
    by (simp add: example_toggles)
  moreover have "selected exampleAll ''l1-0-l2-1''" "selected exampleAll ''l1-0-l2-0-lsi-2''"
    by (simp_all add: exampleAll_def selected_def)
  ultimately show ?thesis
    using example_toggles(1,2) by simp
qed

text \<open>
  C3 (amended). On a tree with the builder's identifiers, a toggle of a node of the tree,
  from a selection reached by such toggles, returns a selection whose keys are the
  selected identifiers and in which every Level1 node that has children is selected
  exactly when all its Level2 children are, and every Level2 node that has terms is
  selected exactly when all its terms are.
\<close>

theorem upward_consistency:
  assumes "wf_tree t" "reachable t s" "nid \<in> set (nodeIds t)" "2 \<le> fuel"
  shows "\<exists>s'. handleSelectionChange fuel t nid v s = Some s'
     \<and> (\<forall>k. (k \<in> fst ` set s') = selected s' k)
     \<and> (\<forall>l1 \<in> set t. children l1 \<noteq> [] \<longrightarrow>
          (selected s' (l1_id l1) \<longleftrightarrow> (\<forall>c \<in> set (children l1). selected s' (l2_id c))))
     \<and> (\<forall>l1 \<in> set t. \<forall>l2 \<in> set (children l1). lsi l2 \<noteq> [] \<longrightarrow>
          (selected s' (l2_id l2) \<longleftrightarrow> (\<forall>l \<in> set (lsi l2). selected s' (lsi_id l))))"
proof -
  from reachable_good[OF assms(1,2)] have g: "distinct (map fst s)" "consistent t s"
    by (simp_all add: goodSelection_def)
  from toggle_good[OF assms(1) g assms(3,4), of v]
  obtain s' where s': "handleSelectionChange fuel t nid v s = Some s'" "goodSelection t s'"
    by blast
  from s'(2) have k: "\<forall>k. (k \<in> fst ` set s') = selected s' k" and c: "consistent t s'"
    by (simp_all add: goodSelection_def)
  from c have c1: "\<forall>l1 \<in> set t. children l1 \<noteq> [] \<longrightarrow>
          (selected s' (l1_id l1) \<longleftrightarrow> (\<forall>c \<in> set (children l1). selected s' (l2_id c)))"
    and c2: "\<forall>l1 \<in> set t. \<forall>l2 \<in> set (children l1). lsi l2 \<noteq> [] \<longrightarrow>
          (selected s' (l2_id l2) \<longleftrightarrow> (\<forall>l \<in> set (lsi l2). selected s' (lsi_id l)))"
    unfolding consistent_def by (rule conjunct1, rule conjunct2)
  show ?thesis
    by (rule exI[of _ s']) (intro conjI s'(1) k c1 c2)
qed

theorem upward_consistency_witness:
  "handleSelectionChange 2 exampleTree ''l1-0-l2-1-lsi-0'' True [] = Some exampleOne
   \<and> selected exampleOne ''l1-0-l2-1'' \<and> selected exampleOne ''l1-0-l2-1-lsi-0''
   \<and> \<not> selected exampleOne ''l1-0'' \<and> \<not> selected exampleOne ''l1-0-l2-0''
   \<and> ''l1-0'' \<notin> fst ` set exampleOne"
proof -
  from upward_consistency[OF wf_exampleTree reachable_empty example_ids(2), of 2 True]
  obtain s' where s': "handleSelectionChange 2 exampleTree ''l1-0-l2-1-lsi-0'' True [] = Some s'"
    and k: "\<forall>k. (k \<in> fst ` set s') = selected s' k"
    by auto
  from s' have e: "s' = exampleOne"
    by (simp add: example_toggles)
  have "selected exampleOne ''l1-0-l2-1''" "selected exampleOne ''l1-0-l2-1-lsi-0''"
    "\<not> selected exampleOne ''l1-0''" "\<not> selected exampleOne ''l1-0-l2-0''"
    by (simp_all add: exampleOne_def selected_def)
  with k e example_toggles(3) show ?thesis
    by simp
qed

text \<open>
  C3 as stated fails at a Level2 node without terms: after a toggle elsewhere it is not
  in the selection, though all of its terms (there are none) are.
\<close>

theorem upward_consistency_counterexample:
  "reachable exampleTree []
   \<and> handleSelectionChange 2 exampleTree ''l1-0'' True [] = Some exampleAll
   \<and> lsi (children (exampleTree ! 1) ! 0) = []
   \<and> \<not> selected exampleAll (l2_id (children (exampleTree ! 1) ! 0))
   \<and> \<not> upwardConsistent exampleTree exampleAll"
proof -
  have "lsi (children (exampleTree ! 1) ! 0) = []"
    "\<not> selected exampleAll (l2_id (children (exampleTree ! 1) ! 0))"
    by (simp_all add: exampleTree_def exampleAll_def selected_def)
  moreover have "\<not> upwardConsistent exampleTree exampleAll"
    by code_simp
  ultimately show ?thesis
    using reachable_empty[of exampleTree] example_toggles(1) by simp
qed

text \<open>
  C5. On a tree with the builder's identifiers, for a node of the tree and a selection
  reached by toggles, the toggle returns, and the same toggle on its result returns that
  result again.
\<close>

theorem toggle_idempotent:
  assumes "wf_tree t" "reachable t s" "nid \<in> set (nodeIds t)" "2 \<le> fuel"
  shows "\<exists>s1. handleSelectionChange fuel t nid v s = Some s1
              \<and> handleSelectionChange fuel t nid v s1 = Some s1"
proof -
  note wf = assms(1)
  from reachable_good[OF assms(1,2)] have d: "distinct (map fst s)"
    by (simp add: goodSelection_def)
  from assms(4) have f1: "1 \<le> fuel" by simp
  from wf assms(3) show ?thesis
  proof (cases rule: nodeIds_cases)
    case (l1 i)
    show ?thesis
      unfolding l1(2) toggle_l1[OF wf l1(1) assms(4)]
      using again_l1[OF wf l1(1) d, where v=v] by simp
  next
    case (l2 i j)
    show ?thesis
      unfolding l2(3) toggle_l2[OF wf l2(1,2) f1]
      using again_l2[OF wf l2(1,2) d, where v=v] by simp
  next
    case (lsi i j k)
    show ?thesis
      unfolding lsi(4) toggle_lsi[OF wf lsi(1,2,3) f1]
      using again_lsi[OF wf lsi(1,2) d, where v=v and k=k] by simp
  qed
qed

theorem toggle_idempotent_witness:
  "handleSelectionChange 2 exampleTree ''l1-0-l2-1-lsi-0'' True [] = Some exampleOne
   \<and> handleSelectionChange 2 exampleTree ''l1-0-l2-1-lsi-0'' True exampleOne = Some exampleOne"
proof -
  from toggle_idempotent[OF wf_exampleTree reachable_empty example_ids(2), of 2 True]
  obtain s1 where "handleSelectionChange 2 exampleTree ''l1-0-l2-1-lsi-0'' True [] = Some s1"
    "handleSelectionChange 2 exampleTree ''l1-0-l2-1-lsi-0'' True s1 = Some s1"
    by auto
  then show ?thesis
    by (simp add: example_toggles(3))
qed

end
